theory Spec2Isabelle
  imports Main
begin

section \<open>Data model of scheduler\_skeleton.c\<close>

text \<open>
  The simulator is a single C file. Its \<^verbatim>\<open>int\<close> values are modelled as HOL integers:
  every counter of a run is bounded by the number of ticks (at most 101, see
  \<open>simulate_loop\<close>), so no arithmetic of the model leaves the range of a C \<^verbatim>\<open>int\<close> for
  inputs whose fields are themselves far from the limits.
\<close>

datatype Algorithm = FCFS | RR | SRTF | SJF

datatype ProcessState = WAITING | RUNNING | COMPLETED | READY

definition MAX_PROCESSES :: int where
  "MAX_PROCESSES = 500"

definition INITIAL_TIMELINE_CAPACITY :: int where
  "INITIAL_TIMELINE_CAPACITY = 1000"

record Process =
  pid :: int
  arrival_time :: int
  burst_time :: int
  priority :: int
  remaining_time :: int
  state :: ProcessState
  start_time :: int
  finish_time :: int
  waiting_time :: int
  quantum_used :: int
  response_time :: int

text \<open>
  \<^verbatim>\<open>Process *current_process\<close> always points into the process array (or is NULL); it is
  modelled by the index of the process it points to.
\<close>

record CPU =
  cpu_id :: int
  current_process :: "nat option"
  idle_time :: int
  busy_time :: int

text \<open>
  The circular queue. \<^verbatim>\<open>process_indices[MAX_PROCESSES]\<close> is a function from the index to
  the stored value; every index the code computes is reduced modulo \<open>MAX_PROCESSES\<close>.
  C's \<^verbatim>\<open>%\<close> and HOL's \<open>mod\<close> agree on non-negative operands, and \<open>rear + 1\<close>,
  \<open>front + 1\<close> and \<open>cur + 1\<close> are non-negative in every queue the program builds
  (lemmas \<open>queue_ok_enqueue\<close>, \<open>queue_ok_dequeue\<close>, \<open>queue_ok_enqueue_priority\<close>).
\<close>

record ReadyQueue =
  process_indices :: "int \<Rightarrow> int"
  front :: int
  rear :: int
  qsize :: int

section \<open>Queue operations\<close>

definition init_queue :: "ReadyQueue \<Rightarrow> ReadyQueue" where
  "init_queue q = q\<lparr>front := 0, rear := -1, qsize := 0\<rparr>"

definition overflow_msg :: string where
  "overflow_msg = ''Error: Ready queue overflow!''"

text \<open>
  \<^verbatim>\<open>enqueue\<close> returns nothing; its effects are the updated queue and the line it may
  print on stderr. The model returns both.
\<close>

definition enqueue :: "ReadyQueue \<Rightarrow> int \<Rightarrow> ReadyQueue \<times> string list" where
  "enqueue q process_idx =
     (if qsize q \<ge> MAX_PROCESSES then (q, [overflow_msg])
      else
        (let r = (rear q + 1) mod MAX_PROCESSES
         in (q\<lparr>process_indices := (process_indices q)(r := process_idx),
                rear := r, qsize := qsize q + 1\<rparr>, [])))"

subsection \<open>Cyclic distance (termination of the two loops of \<^verbatim>\<open>enqueue_priority\<close>)\<close>

definition cyc_measure :: "int \<Rightarrow> int \<Rightarrow> nat" where
  "cyc_measure R cur =
     (if 0 \<le> cur \<and> cur < MAX_PROCESSES then nat ((R - cur) mod MAX_PROCESSES)
      else nat MAX_PROCESSES)"

lemma int_mod_shift:
  fixes x m :: int
  assumes "- m \<le> x" "x < 0"
  shows "x mod m = x + m"
proof -
  have "x mod m = (x + m) mod m" by simp
  also have "\<dots> = x + m" by (rule mod_pos_pos_trivial) (use assms in simp_all)
  finally show ?thesis .
qed

lemma cyc_step:
  fixes c R m :: int
  assumes "0 \<le> c" "c < m" "0 \<le> R" "R < m" "c \<noteq> R"
  shows "(R - (c + 1) mod m) mod m < (R - c) mod m"
proof -
  have a: "(R - (c + 1) mod m) mod m = (R - c - 1) mod m"
    by (metis diff_diff_eq mod_diff_right_eq)
  show ?thesis
  proof (cases "c < R")
    case True
    with assms have "(R - c - 1) mod m = R - c - 1" "(R - c) mod m = R - c" by simp_all
    with a show ?thesis by simp
  next
    case False
    with assms have lt: "R < c" by simp
    have b: "(R - c - 1) mod m = R - c - 1 + m" using lt assms by (intro int_mod_shift) simp_all
    have c: "(R - c) mod m = R - c + m" using lt assms by (intro int_mod_shift) simp_all
    from a b c show ?thesis by simp
  qed
qed

lemma cyc_measure_step:
  assumes "cur \<noteq> (r + 1) mod MAX_PROCESSES"
  shows "cyc_measure ((r + 1) mod MAX_PROCESSES) ((cur + 1) mod MAX_PROCESSES)
         < cyc_measure ((r + 1) mod MAX_PROCESSES) cur"
proof -
  define R where "R = (r + 1) mod MAX_PROCESSES"
  have R: "0 \<le> R" "R < MAX_PROCESSES" by (simp_all add: R_def MAX_PROCESSES_def)
  have n: "0 \<le> (cur + 1) mod MAX_PROCESSES" "(cur + 1) mod MAX_PROCESSES < MAX_PROCESSES"
    by (simp_all add: MAX_PROCESSES_def)
  have lt: "(R - (cur + 1) mod MAX_PROCESSES) mod MAX_PROCESSES < MAX_PROCESSES"
    by (simp add: MAX_PROCESSES_def)
  show ?thesis
  proof (cases "0 \<le> cur \<and> cur < MAX_PROCESSES")
    case True
    with assms R have "(R - (cur + 1) mod MAX_PROCESSES) mod MAX_PROCESSES
        < (R - cur) mod MAX_PROCESSES"
      by (intro cyc_step) (simp_all add: R_def)
    moreover have "0 \<le> (R - (cur + 1) mod MAX_PROCESSES) mod MAX_PROCESSES"
      by (simp add: MAX_PROCESSES_def)
    ultimately have "0 < (R - cur) mod MAX_PROCESSES \<and>
        (R - (cur + 1) mod MAX_PROCESSES) mod MAX_PROCESSES < (R - cur) mod MAX_PROCESSES"
      by linarith
    then show ?thesis using True n
      unfolding cyc_measure_def R_def [symmetric] by simp
  next
    case False
    have "0 < MAX_PROCESSES" by (simp add: MAX_PROCESSES_def)
    with lt have "nat ((R - (cur + 1) mod MAX_PROCESSES) mod MAX_PROCESSES) < nat MAX_PROCESSES"
      by simp
    with False n show ?thesis
      unfolding cyc_measure_def R_def [symmetric] by auto
  qed
qed

text \<open>The scan of \<^verbatim>\<open>enqueue_priority\<close>: from \<open>cur\<close> towards \<open>(rear + 1) % MAX_PROCESSES\<close>.\<close>

function scan_queue :: "ReadyQueue \<Rightarrow> Process list \<Rightarrow> int \<Rightarrow> int \<Rightarrow> int \<Rightarrow> int" where
  "scan_queue q processes new_time new_priority cur =
     (if cur \<noteq> (rear q + 1) mod MAX_PROCESSES then
        (let cur_time = remaining_time (processes ! nat (process_indices q cur));
             cur_priority = priority (processes ! nat (process_indices q cur))
         in if new_time < cur_time \<or> (new_time = cur_time \<and> new_priority > cur_priority)
            then cur
            else scan_queue q processes new_time new_priority ((cur + 1) mod MAX_PROCESSES))
      else cur)"
  by pat_completeness auto

termination
  by (relation "measure (\<lambda>(q, ps, nt, np, cur). cyc_measure ((rear q + 1) mod MAX_PROCESSES) cur)")
     (simp_all add: cyc_measure_step)

text \<open>
  The shifting loop of \<^verbatim>\<open>enqueue_priority\<close>. It runs \<^verbatim>\<open>while (cur != q->rear)\<close> right
  after \<^verbatim>\<open>q->rear = (q->rear + 1) % MAX_PROCESSES\<close>; \<open>rear0\<close> is the value of
  \<^verbatim>\<open>q->rear\<close> before that assignment, so the guard is written with the assigned value.
\<close>

function shift_entries :: "int \<Rightarrow> (int \<Rightarrow> int) \<Rightarrow> int \<Rightarrow> int \<Rightarrow> int \<Rightarrow> (int \<Rightarrow> int)" where
  "shift_entries rear0 a cur nextcur temp =
     (if cur \<noteq> (rear0 + 1) mod MAX_PROCESSES then
        shift_entries rear0 (a(nextcur := temp)) nextcur ((nextcur + 1) mod MAX_PROCESSES) (a nextcur)
      else a)"
  by pat_completeness auto

termination
proof (relation "measure (\<lambda>(rear0, a, cur, nextcur, temp).
    if 0 \<le> cur \<and> cur < MAX_PROCESSES \<and> nextcur = (cur + 1) mod MAX_PROCESSES
    then cyc_measure ((rear0 + 1) mod MAX_PROCESSES) cur
    else if 0 \<le> nextcur \<and> nextcur < MAX_PROCESSES then nat MAX_PROCESSES
    else nat MAX_PROCESSES + 1)", goal_cases)
  case 1
  show ?case by simp
next
  case (2 rear0 a cur nextcur temp)
  have n: "0 \<le> (cur + 1) mod MAX_PROCESSES" "(cur + 1) mod MAX_PROCESSES < MAX_PROCESSES"
    by (simp_all add: MAX_PROCESSES_def)
  have c: "0 \<le> nextcur \<Longrightarrow> nextcur < MAX_PROCESSES \<Longrightarrow>
      cyc_measure ((rear0 + 1) mod MAX_PROCESSES) nextcur < nat MAX_PROCESSES"
  proof -
    assume "0 \<le> nextcur" "nextcur < MAX_PROCESSES"
    moreover have "((rear0 + 1) mod MAX_PROCESSES - nextcur) mod MAX_PROCESSES < MAX_PROCESSES"
      by (simp add: MAX_PROCESSES_def)
    ultimately show ?thesis
      by (simp add: cyc_measure_def MAX_PROCESSES_def)
  qed
  from 2 n c cyc_measure_step [of cur rear0] show ?case
    by (auto simp: MAX_PROCESSES_def)
qed

definition enqueue_priority :: "ReadyQueue \<Rightarrow> int \<Rightarrow> Process list \<Rightarrow> ReadyQueue \<times> string list" where
  "enqueue_priority q process_idx processes =
     (if qsize q \<ge> MAX_PROCESSES then (q, [overflow_msg])
      else if rear q = -1 then enqueue q process_idx
      else
        (let new_time = remaining_time (processes ! nat process_idx);
             new_priority = priority (processes ! nat process_idx);
             cur = scan_queue q processes new_time new_priority (front q)
         in if cur = (rear q + 1) mod MAX_PROCESSES then enqueue q process_idx
            else
              (let r = (rear q + 1) mod MAX_PROCESSES;
                   temp = process_indices q cur;
                   a = (process_indices q)(cur := process_idx);
                   a' = shift_entries (rear q) a cur ((cur + 1) mod MAX_PROCESSES) temp
               in (q\<lparr>process_indices := a', rear := r, qsize := qsize q + 1\<rparr>, []))))"

text \<open>\<^verbatim>\<open>dequeue\<close> returns the index popped (\<open>-1\<close> for an empty queue) and the updated queue.\<close>

definition dequeue :: "ReadyQueue \<Rightarrow> int \<times> ReadyQueue" where
  "dequeue q =
     (if qsize q \<le> 0 then (-1, q)
      else (process_indices q (front q),
            q\<lparr>front := (front q + 1) mod MAX_PROCESSES, qsize := qsize q - 1\<rparr>))"

section \<open>The simulation state\<close>

text \<open>
  Everything \<^verbatim>\<open>simulate\<close> and the functions it calls read or write: the process array,
  the CPUs, the global queue \<^verbatim>\<open>FCFSQ\<close>, the lines printed on stderr, and the locals of
  \<^verbatim>\<open>simulate\<close> (\<^verbatim>\<open>current_time\<close>, \<^verbatim>\<open>completed_count\<close>, the timeline and its capacity).
  The timeline holds one row per tick already recorded: row \<open>t\<close> is \<^verbatim>\<open>timeline[t]\<close>.
  \<open>discards\<close> is not a variable of the program: it counts how often the
  discard-and-retry branch of \<^verbatim>\<open>assign_processes_to_idle_cpus\<close> has run.
\<close>

record sim =
  processes :: "Process list"
  cpus :: "CPU list"
  FCFSQ :: ReadyQueue
  stderr_log :: "string list"
  current_time :: int
  completed_count :: int
  timeline :: "int list list"
  timeline_capacity :: int
  discards :: nat

definition enqueue_FCFSQ :: "int \<Rightarrow> sim \<Rightarrow> sim" where
  "enqueue_FCFSQ process_idx s =
     (case enqueue (FCFSQ s) process_idx of
        (q, out) \<Rightarrow> s\<lparr>FCFSQ := q, stderr_log := stderr_log s @ out\<rparr>)"

definition enqueue_priority_FCFSQ :: "int \<Rightarrow> sim \<Rightarrow> sim" where
  "enqueue_priority_FCFSQ process_idx s =
     (case enqueue_priority (FCFSQ s) process_idx (processes s) of
        (q, out) \<Rightarrow> s\<lparr>FCFSQ := q, stderr_log := stderr_log s @ out\<rparr>)"

section \<open>Simulation components\<close>

subsection \<open>\<^verbatim>\<open>handle_arrivals\<close>\<close>

text \<open>
  First loop: one step per process index \<open>i\<close>; the pair is the process array and
  \<^verbatim>\<open>arrived_indices[0 .. arrival_count - 1]\<close>.
\<close>

definition mark_arrival :: "int \<Rightarrow> nat \<Rightarrow> Process list \<times> int list \<Rightarrow> Process list \<times> int list" where
  "mark_arrival t i pa =
     (case pa of (ps, arrived) \<Rightarrow>
        if arrival_time (ps ! i) = t then
          (if int (length arrived) < MAX_PROCESSES
           then (ps[i := (ps ! i)\<lparr>state := READY, quantum_used := 0\<rparr>], arrived @ [int i])
           else (ps, arrived))
        else (ps, arrived))"

text \<open>Second loop: one step per arrived index, by algorithm (RR and SRTF enqueue nothing here).\<close>

definition admit_arrival :: "Algorithm \<Rightarrow> int \<Rightarrow> sim \<Rightarrow> sim" where
  "admit_arrival algorithm idx s =
     (case algorithm of
        FCFS \<Rightarrow> enqueue_FCFSQ idx s
      | SJF \<Rightarrow> enqueue_priority_FCFSQ idx s
      | _ \<Rightarrow> s)"

definition handle_arrivals :: "Algorithm \<Rightarrow> int \<Rightarrow> sim \<Rightarrow> sim \<times> int list" where
  "handle_arrivals algorithm t s =
     (case fold (mark_arrival t) [0..<length (processes s)] (processes s, []) of
        (ps, arrived) \<Rightarrow> (fold (admit_arrival algorithm) arrived (s\<lparr>processes := ps\<rparr>), arrived))"

subsection \<open>\<^verbatim>\<open>handle_rr_quantum_expiry\<close>\<close>

definition expire_cpu :: "int \<Rightarrow> nat \<Rightarrow> sim \<Rightarrow> sim" where
  "expire_cpu time_quantum i s =
     (case current_process (cpus s ! i) of
        None \<Rightarrow> s
      | Some cp \<Rightarrow>
          if remaining_time (processes s ! cp) > 0 \<and> state (processes s ! cp) = RUNNING then
            (if quantum_used (processes s ! cp) \<ge> time_quantum then
               (let s1 = s\<lparr>processes := (processes s)
                            [cp := (processes s ! cp)\<lparr>quantum_used := 0, state := READY\<rparr>]\<rparr>;
                    s2 = enqueue_FCFSQ (int cp) s1
                in s2\<lparr>cpus := (cpus s2)[i := (cpus s2 ! i)\<lparr>current_process := None\<rparr>]\<rparr>)
             else s)
          else s)"

definition handle_rr_quantum_expiry :: "int \<Rightarrow> sim \<Rightarrow> sim" where
  "handle_rr_quantum_expiry time_quantum s =
     fold (expire_cpu time_quantum) [0..<length (cpus s)] s"

subsection \<open>\<^verbatim>\<open>handle_srtf_preemption\<close>\<close>

text \<open>The body only checks its pointers for NULL (they never are) and changes nothing.\<close>

definition handle_srtf_preemption :: "int \<Rightarrow> sim \<Rightarrow> sim" where
  "handle_srtf_preemption t s = s"

subsection \<open>\<^verbatim>\<open>assign_processes_to_idle_cpus\<close>\<close>

text \<open>
  The \<^verbatim>\<open>for\<close> loop over \<open>c\<close>; \<^verbatim>\<open>c--; continue;\<close> followed by the loop's \<^verbatim>\<open>c++\<close> is the
  recursive call at the same \<open>c\<close>, \<^verbatim>\<open>break\<close> is the return of the state.
\<close>

function assign_loop :: "int \<Rightarrow> nat \<Rightarrow> sim \<Rightarrow> sim" where
  "assign_loop t c s =
     (if c < length (cpus s) then
        (if current_process (cpus s ! c) \<noteq> None then assign_loop t (c + 1) s
         else
           (case dequeue (FCFSQ s) of
              (idx, q) \<Rightarrow>
                if idx = -1 then s\<lparr>FCFSQ := q\<rparr>
                else if state (processes s ! nat idx) = COMPLETED
                        \<or> arrival_time (processes s ! nat idx) > t
                then assign_loop t c (s\<lparr>FCFSQ := q, discards := discards s + 1\<rparr>)
                else
                  assign_loop t (c + 1)
                    (s\<lparr>FCFSQ := q,
                       cpus := (cpus s)[c := (cpus s ! c)\<lparr>current_process := Some (nat idx)\<rparr>],
                       processes := (processes s)
                         [nat idx :=
                            (if start_time (processes s ! nat idx) = -1
                             then (processes s ! nat idx)
                                    \<lparr>state := RUNNING, start_time := t,
                                     response_time := t - arrival_time (processes s ! nat idx),
                                     quantum_used := 0\<rparr>
                             else (processes s ! nat idx)\<lparr>state := RUNNING, quantum_used := 0\<rparr>)]\<rparr>)))
      else s)"
  by pat_completeness auto

termination
  by (relation "measure (\<lambda>(t, c, s). nat (qsize (FCFSQ s)) + (length (cpus s) - c))")
     (auto simp: dequeue_def split: if_splits)

definition assign_processes_to_idle_cpus :: "int \<Rightarrow> sim \<Rightarrow> sim" where
  "assign_processes_to_idle_cpus t s = assign_loop t 0 s"

subsection \<open>\<^verbatim>\<open>update_waiting_times\<close> and \<^verbatim>\<open>execute_processes\<close>\<close>

definition update_waiting_times :: "int \<Rightarrow> sim \<Rightarrow> sim" where
  "update_waiting_times t s =
     s\<lparr>processes :=
          map (\<lambda>p. if state p = WAITING \<and> arrival_time p \<le> t
                    then p\<lparr>waiting_time := waiting_time p + 1\<rparr> else p)
              (processes s)\<rparr>"

definition execute_cpu :: "int \<Rightarrow> nat \<Rightarrow> sim \<Rightarrow> sim" where
  "execute_cpu t c s =
     (case current_process (cpus s ! c) of
        Some i \<Rightarrow>
          (let p = (processes s ! i)\<lparr>remaining_time := remaining_time (processes s ! i) - 1,
                                     quantum_used := quantum_used (processes s ! i) + 1\<rparr>;
               cpu = (cpus s ! c)\<lparr>busy_time := busy_time (cpus s ! c) + 1\<rparr>
           in if remaining_time p \<le> 0
              then s\<lparr>processes := (processes s)[i := p\<lparr>finish_time := t + 1, state := COMPLETED\<rparr>],
                     cpus := (cpus s)[c := cpu\<lparr>current_process := None\<rparr>],
                     completed_count := completed_count s + 1\<rparr>
              else s\<lparr>processes := (processes s)[i := p], cpus := (cpus s)[c := cpu]\<rparr>)
      | None \<Rightarrow>
          s\<lparr>cpus := (cpus s)[c := (cpus s ! c)\<lparr>idle_time := idle_time (cpus s ! c) + 1\<rparr>]\<rparr>)"

definition execute_processes :: "int \<Rightarrow> sim \<Rightarrow> sim" where
  "execute_processes t s = fold (execute_cpu t) [0..<length (cpus s)] s"

section \<open>The main simulation\<close>

definition record_timeline :: "sim \<Rightarrow> sim" where
  "record_timeline s =
     s\<lparr>timeline_capacity :=
          (if current_time s \<ge> timeline_capacity s then timeline_capacity s * 2
           else timeline_capacity s),
        timeline := timeline s @
          [map (\<lambda>cpu. case current_process cpu of
                        Some i \<Rightarrow> pid (processes s ! i) | None \<Rightarrow> -1) (cpus s)]\<rparr>"

text \<open>One pass through the body of the main loop, up to and including \<^verbatim>\<open>current_time++\<close>.\<close>

definition tick :: "Algorithm \<Rightarrow> int \<Rightarrow> sim \<Rightarrow> sim" where
  "tick algorithm time_quantum s =
     (let t = current_time s in
      case handle_arrivals algorithm t s of
        (s1, arrived) \<Rightarrow>
          (let s2 = (if algorithm = RR
                     then handle_rr_quantum_expiry time_quantum (fold enqueue_FCFSQ arrived s1)
                     else s1);
               s3 = (if algorithm = SRTF then handle_srtf_preemption t s2 else s2);
               s4 = assign_processes_to_idle_cpus t s3;
               s5 = record_timeline s4;
               s6 = update_waiting_times t s5;
               s7 = execute_processes t s6
           in s7\<lparr>current_time := t + 1\<rparr>))"

definition divergence_msg :: string where
  "divergence_msg = ''Warning: Simulation exceeded maximum expected time. Aborting.''"

text \<open>
  The main loop. \<open>bruh\<close> is the local counter of that name; the loop has three exits:
  its guard, the safety break (which prints \<open>divergence_msg\<close>) and \<^verbatim>\<open>if (bruh > 100) break;\<close>.
\<close>

function simulate_loop :: "Algorithm \<Rightarrow> int \<Rightarrow> int \<Rightarrow> sim \<Rightarrow> sim" where
  "simulate_loop algorithm time_quantum bruh s =
     (if completed_count s < int (length (processes s)) then
        (let s' = tick algorithm time_quantum s in
         if current_time s' > timeline_capacity s' * 5
            \<and> completed_count s' < int (length (processes s))
         then s'\<lparr>stderr_log := stderr_log s' @ [divergence_msg]\<rparr>
         else if bruh + 1 > 100 then s'
         else simulate_loop algorithm time_quantum (bruh + 1) s')
      else s)"
  by pat_completeness auto

termination
  by (relation "measure (\<lambda>(algorithm, time_quantum, bruh, s). nat (101 - bruh))") auto

text \<open>
  The state \<^verbatim>\<open>simulate\<close> starts from: \<^verbatim>\<open>calloc\<close>'ed CPUs with their ids, the queue as
  \<^verbatim>\<open>main\<close> initialised it (a zeroed global, then \<^verbatim>\<open>init_queue\<close>), time 0.
\<close>

definition initial_sim :: "Process list \<Rightarrow> nat \<Rightarrow> sim" where
  "initial_sim ps cpu_count =
     \<lparr>processes = ps,
      cpus = map (\<lambda>i. \<lparr>cpu_id = int i, current_process = None, idle_time = 0, busy_time = 0\<rparr>)
                 [0..<cpu_count],
      FCFSQ = init_queue \<lparr>process_indices = (\<lambda>_. 0), front = 0, rear = 0, qsize = 0\<rparr>,
      stderr_log = [],
      current_time = 0,
      completed_count = 0,
      timeline = [],
      timeline_capacity = INITIAL_TIMELINE_CAPACITY,
      discards = 0\<rparr>"

definition simulate :: "Process list \<Rightarrow> nat \<Rightarrow> Algorithm \<Rightarrow> int \<Rightarrow> sim" where
  "simulate ps cpu_count algorithm time_quantum =
     simulate_loop algorithm time_quantum 0 (initial_sim ps cpu_count)"

text \<open>
  What \<^verbatim>\<open>load_processes\<close> stores for one input record
  \<^verbatim>\<open><PID> <arrival_time> <burst_time> [priority]\<close>.
\<close>

definition new_process :: "int \<times> int \<times> int \<times> int \<Rightarrow> Process" where
  "new_process r =
     (case r of (p, arrival, burst, prio) \<Rightarrow>
        \<lparr>pid = p, arrival_time = arrival, burst_time = burst, priority = prio,
         remaining_time = burst, state = WAITING, start_time = -1, finish_time = -1,
         waiting_time = 0, quantum_used = 0, response_time = -1\<rparr>)"

definition load_processes :: "(int \<times> int \<times> int \<times> int) list \<Rightarrow> Process list" where
  "load_processes recs = map new_process recs"

text \<open>The recursive equations are unfolded by hand, one loop iteration at a time.\<close>

declare scan_queue.simps [simp del] shift_entries.simps [simp del]
  assign_loop.simps [simp del] simulate_loop.simps [simp del]

section \<open>The queue as a list\<close>

text \<open>
  \<open>qlist q\<close> is the content of the circular queue, front first. \<open>queue_ok\<close> is the
  shape every queue of the program has: indices in range, and \<open>rear\<close> one slot before the
  first free slot (or \<open>-1\<close> right after \<^verbatim>\<open>init_queue\<close>).
\<close>

definition slot :: "ReadyQueue \<Rightarrow> nat \<Rightarrow> int" where
  "slot q k = (front q + int k) mod MAX_PROCESSES"

definition qlist :: "ReadyQueue \<Rightarrow> int list" where
  "qlist q = map (\<lambda>k. process_indices q (slot q k)) [0..<nat (qsize q)]"

definition queue_ok :: "ReadyQueue \<Rightarrow> bool" where
  "queue_ok q \<longleftrightarrow>
     0 \<le> front q \<and> front q < MAX_PROCESSES \<and> rear q < MAX_PROCESSES \<and>
     (0 \<le> rear q \<or> rear q = - 1 \<and> qsize q = 0) \<and>
     0 \<le> qsize q \<and> qsize q \<le> MAX_PROCESSES \<and>
     (rear q + 1) mod MAX_PROCESSES = (front q + qsize q) mod MAX_PROCESSES"

text \<open>The comparison of the scan: the new entry (time, priority) goes before process \<open>p\<close>.\<close>

definition outranks :: "int \<Rightarrow> int \<Rightarrow> Process \<Rightarrow> bool" where
  "outranks new_time new_priority p \<longleftrightarrow>
     new_time < remaining_time p \<or> (new_time = remaining_time p \<and> new_priority > priority p)"

text \<open>\<open>insert_at k x xs\<close> is the list \<open>xs\<close> with \<open>x\<close> put in at position \<open>k\<close>.\<close>

definition insert_at :: "nat \<Rightarrow> 'a \<Rightarrow> 'a list \<Rightarrow> 'a list" where
  "insert_at j x xs = take j xs @ x # drop j xs"

text \<open>
  The order of the scan on queue entries: \<open>ranks_before ps x y\<close> when the process of index
  \<open>x\<close> has less remaining time than that of \<open>y\<close>, or the same remaining time and a
  larger priority value.
\<close>

definition ranks_before :: "Process list \<Rightarrow> int \<Rightarrow> int \<Rightarrow> bool" where
  "ranks_before ps x y \<longleftrightarrow>
     outranks (remaining_time (ps ! nat x)) (priority (ps ! nat x)) (ps ! nat y)"

definition queue_sorted :: "Process list \<Rightarrow> int list \<Rightarrow> bool" where
  "queue_sorted ps xs \<longleftrightarrow> sorted_wrt (\<lambda>x y. \<not> ranks_before ps y x) xs"

section \<open>Dispatch, as the specification words it\<close>

text \<open>
  The definitions of this section follow the specification (4.3, dispatch rule), not the
  code: CPUs are a list of occupants (\<open>None\<close> for idle), the ready queue is a list, front
  first. \<open>dispatch_spec\<close> returns the occupants, the queue and the processes after dispatch.
\<close>

definition ineligible :: "int \<Rightarrow> Process list \<Rightarrow> int \<Rightarrow> bool" where
  "ineligible t ps idx \<longleftrightarrow>
     state (ps ! nat idx) = COMPLETED \<or> arrival_time (ps ! nat idx) > t"

definition dispatched :: "int \<Rightarrow> Process \<Rightarrow> Process" where
  "dispatched t p =
     (if start_time p = - 1
      then p\<lparr>state := RUNNING, start_time := t, response_time := t - arrival_time p,
             quantum_used := 0\<rparr>
      else p\<lparr>state := RUNNING, quantum_used := 0\<rparr>)"

fun dispatch_spec ::
  "int \<Rightarrow> nat option list \<Rightarrow> int list \<Rightarrow> Process list
     \<Rightarrow> nat option list \<times> int list \<times> Process list" where
  "dispatch_spec t [] queue ps = ([], queue, ps)"
| "dispatch_spec t (Some i # occupants) queue ps =
     (case dispatch_spec t occupants queue ps of
        (occupants', queue', ps') \<Rightarrow> (Some i # occupants', queue', ps'))"
| "dispatch_spec t (None # occupants) queue ps =
     (case dropWhile (ineligible t ps) queue of
        [] \<Rightarrow> (None # occupants, [], ps)
      | idx # queue' \<Rightarrow>
          (case dispatch_spec t occupants queue' (ps[nat idx := dispatched t (ps ! nat idx)]) of
             (occupants', queue'', ps') \<Rightarrow> (Some (nat idx) # occupants', queue'', ps')))"

definition abs_sim :: "sim \<Rightarrow> nat option list \<times> int list \<times> Process list" where
  "abs_sim s = (map current_process (cpus s), qlist (FCFSQ s), processes s)"

section \<open>Quantum expiry, as the specification words it\<close>

text \<open>
  The definitions of this section follow the specification (4.3, quantum-expiry rule) on
  the same lists as \<open>dispatch_spec\<close>. \<open>push_back\<close> is the one point taken from the code:
  a queue that already holds \<open>MAX_PROCESSES\<close> entries takes no more.
\<close>

definition push_back :: "int list \<Rightarrow> int \<Rightarrow> int list" where
  "push_back queue idx = (if MAX_PROCESSES \<le> int (length queue) then queue else queue @ [idx])"

fun rr_expiry_spec ::
  "int \<Rightarrow> nat option list \<Rightarrow> int list \<Rightarrow> Process list
     \<Rightarrow> nat option list \<times> int list \<times> Process list" where
  "rr_expiry_spec Q [] queue ps = ([], queue, ps)"
| "rr_expiry_spec Q (None # occupants) queue ps =
     (case rr_expiry_spec Q occupants queue ps of
        (occupants', queue', ps') \<Rightarrow> (None # occupants', queue', ps'))"
| "rr_expiry_spec Q (Some i # occupants) queue ps =
     (if quantum_used (ps ! i) \<ge> Q \<and> remaining_time (ps ! i) > 0
      then (case rr_expiry_spec Q occupants (push_back queue (int i))
                   (ps[i := (ps ! i)\<lparr>quantum_used := 0, state := READY\<rparr>]) of
              (occupants', queue', ps') \<Rightarrow> (None # occupants', queue', ps'))
      else (case rr_expiry_spec Q occupants queue ps of
              (occupants', queue', ps') \<Rightarrow> (Some i # occupants', queue', ps')))"

text \<open>
  The lines the quantum-expiry rule prints on stderr: one for each expired process that
  finds the queue holding \<open>MAX_PROCESSES\<close> entries.
\<close>

fun rr_expiry_reports ::
  "int \<Rightarrow> nat option list \<Rightarrow> int list \<Rightarrow> Process list \<Rightarrow> string list" where
  "rr_expiry_reports Q [] queue ps = []"
| "rr_expiry_reports Q (None # occupants) queue ps = rr_expiry_reports Q occupants queue ps"
| "rr_expiry_reports Q (Some i # occupants) queue ps =
     (if quantum_used (ps ! i) \<ge> Q \<and> remaining_time (ps ! i) > 0
      then (if MAX_PROCESSES \<le> int (length queue) then [overflow_msg] else []) @
           rr_expiry_reports Q occupants (push_back queue (int i))
             (ps[i := (ps ! i)\<lparr>quantum_used := 0, state := READY\<rparr>])
      else rr_expiry_reports Q occupants queue ps)"

section \<open>An invariant of the simulation\<close>

text \<open>
  At tick \<open>t\<close>: the queue is well formed and holds distinct indices of processes that
  are READY and have arrived; the CPUs hold distinct indices of RUNNING processes; a
  process that arrives later than \<open>t\<close> is still WAITING; and the discard branch of the
  dispatch loop has not run.
\<close>

definition queue_entries_ok :: "int \<Rightarrow> Process list \<Rightarrow> int list \<Rightarrow> bool" where
  "queue_entries_ok t ps xs \<longleftrightarrow>
     distinct xs \<and>
     (\<forall>idx\<in>set xs. 0 \<le> idx \<and> nat idx < length ps \<and> state (ps ! nat idx) = READY \<and>
        arrival_time (ps ! nat idx) \<le> t)"

definition occupants_ok :: "Process list \<Rightarrow> CPU list \<Rightarrow> bool" where
  "occupants_ok ps cs \<longleftrightarrow>
     (\<forall>c<length cs. \<forall>i. current_process (cs ! c) = Some i \<longrightarrow>
        i < length ps \<and> state (ps ! i) = RUNNING) \<and>
     (\<forall>c<length cs. \<forall>d<length cs. \<forall>i.
        current_process (cs ! c) = Some i \<and> current_process (cs ! d) = Some i \<longrightarrow> c = d)"

definition not_arrived_ok :: "int \<Rightarrow> Process list \<Rightarrow> bool" where
  "not_arrived_ok t ps \<longleftrightarrow> (\<forall>i<length ps. t < arrival_time (ps ! i) \<longrightarrow> state (ps ! i) = WAITING)"

definition sched_inv :: "int \<Rightarrow> sim \<Rightarrow> bool" where
  "sched_inv t s \<longleftrightarrow>
     queue_ok (FCFSQ s) \<and> queue_entries_ok t (processes s) (qlist (FCFSQ s)) \<and>
     occupants_ok (processes s) (cpus s) \<and> not_arrived_ok t (processes s) \<and> discards s = 0"

text \<open>Indices that may be enqueued at tick \<open>t\<close>: READY, arrived, not yet in the queue.\<close>

definition pending_ok :: "int \<Rightarrow> sim \<Rightarrow> int list \<Rightarrow> bool" where
  "pending_ok t s arrived \<longleftrightarrow>
     distinct arrived \<and>
     (\<forall>x\<in>set arrived. 0 \<le> x \<and> nat x < length (processes s) \<and>
        state (processes s ! nat x) = READY \<and> arrival_time (processes s ! nat x) \<le> t \<and>
        x \<notin> set (qlist (FCFSQ s)))"

text \<open>The marking loop of \<open>handle_arrivals\<close>, after the first \<open>k\<close> indices.\<close>

definition arrivals_upto :: "int \<Rightarrow> Process list \<Rightarrow> nat \<Rightarrow> nat list" where
  "arrivals_upto t ps k = take (nat MAX_PROCESSES) (filter (\<lambda>i. arrival_time (ps ! i) = t) [0..<k])"

text \<open>The processes after the whole marking loop at tick \<open>t\<close>.\<close>

definition marked :: "int \<Rightarrow> Process list \<Rightarrow> Process list" where
  "marked t ps =
     map (\<lambda>i. if i \<in> set (arrivals_upto t ps (length ps))
               then (ps ! i)\<lparr>state := READY, quantum_used := 0\<rparr> else ps ! i) [0..<length ps]"

text \<open>
  The start of the next round-robin tick, up to the quantum-expiry check: arrivals are
  marked and enqueued, then \<open>handle_rr_quantum_expiry\<close> runs.
\<close>

definition rr_tick_start :: "int \<Rightarrow> int \<Rightarrow> sim \<Rightarrow> sim" where
  "rr_tick_start Q t s =
     handle_rr_quantum_expiry Q
       (fold enqueue_FCFSQ (snd (handle_arrivals RR t s)) (fst (handle_arrivals RR t s)))"

text \<open>
  The state of a round-robin tick in which \<open>simulate\<close> calls \<open>handle_rr_quantum_expiry\<close>:
  the arrivals of the tick are marked and enqueued.
\<close>

definition rr_admitted :: "sim \<Rightarrow> sim" where
  "rr_admitted s =
     (case handle_arrivals RR (current_time s) s of
        (s1, arrived) \<Rightarrow> fold enqueue_FCFSQ arrived s1)"

text \<open>
  The state in which \<open>tick\<close> calls \<open>assign_processes_to_idle_cpus\<close>: arrivals admitted,
  quantum expiry (RR) and preemption (SRTF) done.
\<close>

definition before_dispatch :: "Algorithm \<Rightarrow> int \<Rightarrow> sim \<Rightarrow> sim" where
  "before_dispatch algorithm time_quantum s =
     (let t = current_time s in
      case handle_arrivals algorithm t s of
        (s1, arrived) \<Rightarrow>
          (let s2 = (if algorithm = RR
                     then handle_rr_quantum_expiry time_quantum (fold enqueue_FCFSQ arrived s1)
                     else s1)
           in if algorithm = SRTF then handle_srtf_preemption t s2 else s2))"

section \<open>Example runs\<close>

text \<open>The SRTF example of the specification: pid 1 (arrival 0, burst 8), pid 2 (arrival 1, burst 4), one CPU.\<close>

definition srtf_example :: sim where
  "srtf_example = simulate (load_processes [(1, 0, 8, 0), (2, 1, 4, 0)]) 1 SRTF 2"

text \<open>One process (arrival 0, burst 3) under SRTF, after \<open>handle_arrivals\<close> at tick 0.\<close>

definition srtf_arrival_example :: sim where
  "srtf_arrival_example = fst (handle_arrivals SRTF 0 (initial_sim (load_processes [(1, 0, 3, 0)]) 1))"

text \<open>One process of burst 200 under FCFS on one CPU.\<close>

definition long_job_example :: sim where
  "long_job_example = simulate (load_processes [(1, 0, 200, 0)]) 1 FCFS 2"

text \<open>The FCFS example of the specification: bursts 5 and 3, both arriving at tick 0, one CPU.\<close>

definition fcfs_example :: sim where
  "fcfs_example = simulate (load_processes [(1, 0, 5, 0), (2, 0, 3, 0)]) 1 FCFS 2"

text \<open>Two processes of burst 60 under FCFS on one CPU.\<close>

definition two_jobs_example :: sim where
  "two_jobs_example = simulate (load_processes [(1, 0, 60, 0), (2, 0, 60, 0)]) 1 FCFS 2"

text \<open>Two processes with the same burst, priorities 1 and 2, both arriving at tick 0.\<close>

definition tie_example :: "Process list" where
  "tie_example = load_processes [(1, 0, 5, 1), (2, 0, 5, 2)]"

text \<open>Three processes of remaining times 5, 3, 5 and priorities 1, 0, 2, and the queue after the ordered insertion of indices 0 and 1.\<close>

definition insert_example :: "Process list" where
  "insert_example = load_processes [(1, 0, 5, 1), (2, 0, 3, 0), (3, 0, 5, 2)]"

definition insert_example_queue :: ReadyQueue where
  "insert_example_queue =
     fst (enqueue_priority (fst (enqueue_priority (FCFSQ (initial_sim insert_example 1)) 0 insert_example))
            1 insert_example)"

text \<open>FCFS on two CPUs, three processes arriving at tick 0, after \<open>handle_arrivals\<close> at tick 0.\<close>

definition dispatch_example :: sim where
  "dispatch_example =
     fst (handle_arrivals FCFS 0
            (initial_sim (load_processes [(1, 0, 5, 0), (2, 0, 3, 0), (3, 0, 2, 0)]) 2))"

text \<open>
  The same state with the process of index 0 marked COMPLETED while its index is still at
  the front of the queue (no run of the simulation gets there; it exercises the discard
  branch of the dispatch loop).
\<close>

definition discard_example :: sim where
  "discard_example =
     dispatch_example\<lparr>processes :=
       (processes dispatch_example)[0 := (processes dispatch_example ! 0)\<lparr>state := COMPLETED\<rparr>]\<rparr>"

text \<open>Round robin with quantum 2 on one CPU: two processes of burst 4 after two ticks, and processes of bursts 2 and 4 after one tick.\<close>

definition expiry_example :: sim where
  "expiry_example =
     tick RR 2 (tick RR 2 (initial_sim (load_processes [(1, 0, 4, 0), (2, 0, 4, 0)]) 1))"

definition last_unit_example :: sim where
  "last_unit_example = tick RR 2 (initial_sim (load_processes [(1, 0, 2, 0), (2, 0, 4, 0)]) 1)"

text \<open>
  Round robin with quantum 2 on one CPU and 502 processes of burst 3: indices 0 to 499
  arrive at tick 0, indices 500 and 501 at tick 1. \<open>crowded\<close> is the state of that run at
  tick 2 when \<open>handle_rr_quantum_expiry\<close> is called: index 0 has run for two ticks, the
  queue holds the 500 indices 1 to 500 (index 501 found it full at tick 1).
\<close>

definition crowded_process :: "nat \<Rightarrow> Process" where
  "crowded_process k =
     \<lparr>pid = int k + 1, arrival_time = (if k < 500 then 0 else 1), burst_time = 3, priority = 0,
      remaining_time = (if k = 0 then 1 else 3),
      state = (if k = 0 then RUNNING else READY),
      start_time = (if k = 0 then 0 else - 1), finish_time = - 1, waiting_time = 0,
      quantum_used = (if k = 0 then 2 else 0),
      response_time = (if k = 0 then 0 else - 1)\<rparr>"

definition crowded :: sim where
  "crowded =
     \<lparr>processes = map crowded_process [0..<502],
      cpus = [\<lparr>cpu_id = 0, current_process = Some 0, idle_time = 0, busy_time = 2\<rparr>],
      FCFSQ = \<lparr>process_indices = (\<lambda>i. if i = 0 then 500 else i), front = 1, rear = 0,
               qsize = 500\<rparr>,
      stderr_log = [overflow_msg],
      current_time = 2,
      completed_count = 0,
      timeline = [[1], [1]],
      timeline_capacity = 1000,
      discards = 0\<rparr>"

section \<open>Properties of the queue operations\<close>

lemma length_qlist [simp]: "length (qlist q) = nat (qsize q)"
  by (simp add: qlist_def)

lemma slot_range: "0 \<le> slot q k" "slot q k < MAX_PROCESSES"
  by (simp_all add: slot_def MAX_PROCESSES_def)

lemma slot_Suc: "(slot q k + 1) mod MAX_PROCESSES = slot q (Suc k)"
proof -
  have "(slot q k + 1) mod MAX_PROCESSES = (front q + int k + 1) mod MAX_PROCESSES"
    unfolding slot_def by (rule mod_add_left_eq)
  then show ?thesis by (simp add: slot_def algebra_simps)
qed

lemma slot_0: "queue_ok q \<Longrightarrow> slot q 0 = front q"
  by (simp add: slot_def queue_ok_def)

lemma slot_end: "queue_ok q \<Longrightarrow> slot q (nat (qsize q)) = (rear q + 1) mod MAX_PROCESSES"
  by (simp add: slot_def queue_ok_def)

lemma slot_inj:
  assumes "slot q j = slot q k" "int j < MAX_PROCESSES" "int k < MAX_PROCESSES"
  shows "j = k"
proof -
  from assms(1) have "MAX_PROCESSES dvd (front q + int j) - (front q + int k)"
    by (simp add: slot_def mod_eq_dvd_iff)
  then have d: "MAX_PROCESSES dvd int j - int k" by simp
  have "int j - int k = 0"
  proof (rule ccontr)
    assume "int j - int k \<noteq> 0"
    with d have "\<bar>MAX_PROCESSES\<bar> \<le> \<bar>int j - int k\<bar>"
      using dvd_imp_le_int [of "int j - int k" MAX_PROCESSES] by simp
    with assms(2,3) show False by (simp add: MAX_PROCESSES_def)
  qed
  then show ?thesis by simp
qed

lemma queue_ok_init: "queue_ok (init_queue q)"
  by (simp add: queue_ok_def init_queue_def MAX_PROCESSES_def)

lemma qlist_init: "qlist (init_queue q) = []"
  by (simp add: qlist_def init_queue_def)

lemma enqueue_full: "MAX_PROCESSES \<le> qsize q \<Longrightarrow> enqueue q i = (q, [overflow_msg])"
  by (simp add: enqueue_def)

lemma snd_enqueue: "snd (enqueue q i) = (if MAX_PROCESSES \<le> qsize q then [overflow_msg] else [])"
  by (simp add: enqueue_def Let_def)

lemma queue_ok_enqueue: "queue_ok q \<Longrightarrow> queue_ok (fst (enqueue q i))"
  unfolding queue_ok_def enqueue_def Let_def
  by (auto simp: MAX_PROCESSES_def mod_add_left_eq add.assoc)

lemma qlist_enqueue:
  assumes "queue_ok q"
  shows "qlist (fst (enqueue q i)) = (if MAX_PROCESSES \<le> qsize q then qlist q else qlist q @ [i])"
proof (cases "MAX_PROCESSES \<le> qsize q")
  case True
  then show ?thesis by (simp add: enqueue_def)
next
  case False
  define n where "n = nat (qsize q)"
  from assms False have n: "qsize q = int n" "int n < MAX_PROCESSES"
    by (simp_all add: n_def queue_ok_def)
  define q' where "q' = fst (enqueue q i)"
  have q': "front q' = front q" "qsize q' = int (Suc n)"
    "process_indices q' = (process_indices q)(slot q n := i)"
    using False slot_end [OF assms] by (simp_all add: q'_def enqueue_def Let_def n)
  have s: "slot q' k = slot q k" for k by (simp add: slot_def q')
  have "qlist q' = qlist q @ [i]"
  proof (rule nth_equalityI)
    show "length (qlist q') = length (qlist q @ [i])" by (simp add: q' n)
  next
    fix k assume "k < length (qlist q')"
    then have k: "k < Suc n" by (simp add: q')
    show "qlist q' ! k = (qlist q @ [i]) ! k"
    proof (cases "k = n")
      case True
      then show ?thesis by (simp add: qlist_def q' s n nth_append)
    next
      case False
      with k have kn: "k < n" by simp
      then have "slot q k \<noteq> slot q n" using slot_inj [of q k n] n by auto
      with kn show ?thesis by (simp add: qlist_def q' s n nth_append)
    qed
  qed
  with False show ?thesis by (simp add: q'_def)
qed

lemma dequeue_empty: "qsize q \<le> 0 \<Longrightarrow> dequeue q = (- 1, q)"
  by (simp add: dequeue_def)

lemma qlist_empty_iff: "qlist q = [] \<longleftrightarrow> qsize q \<le> 0"
  by (simp add: qlist_def)

lemma fst_dequeue:
  assumes "queue_ok q" "0 < qsize q"
  shows "fst (dequeue q) = hd (qlist q)"
  using assms by (simp add: dequeue_def qlist_def hd_map slot_0 hd_upt)

lemma queue_ok_dequeue:
  assumes "queue_ok q"
  shows "queue_ok (snd (dequeue q))"
proof (cases "0 < qsize q")
  case False
  with assms show ?thesis by (simp add: dequeue_def)
next
  case True
  have "((front q + 1) mod MAX_PROCESSES + (qsize q - 1)) mod MAX_PROCESSES
      = (front q + 1 + (qsize q - 1)) mod MAX_PROCESSES"
    by (rule mod_add_left_eq)
  then have "((front q + 1) mod MAX_PROCESSES + (qsize q - 1)) mod MAX_PROCESSES
      = (front q + qsize q) mod MAX_PROCESSES"
    by simp
  with True assms show ?thesis
    by (simp add: queue_ok_def dequeue_def MAX_PROCESSES_def)
qed

lemma qlist_dequeue:
  assumes "queue_ok q"
  shows "qlist (snd (dequeue q)) = tl (qlist q)"
proof (cases "0 < qsize q")
  case False
  then show ?thesis by (simp add: dequeue_def qlist_def)
next
  case True
  define q' where "q' = snd (dequeue q)"
  from True have q': "front q' = slot q 1" "qsize q' = qsize q - 1"
    "process_indices q' = process_indices q"
    using slot_Suc [of q 0] slot_0 [OF assms] by (simp_all add: q'_def dequeue_def)
  have s: "slot q' k = slot q (Suc k)" for k
    by (simp add: slot_def q' mod_simps algebra_simps)
  have "qlist q' = tl (qlist q)"
  proof (rule nth_equalityI)
    show "length (qlist q') = length (tl (qlist q))" using True by (simp add: q')
  next
    fix k assume "k < length (qlist q')"
    then have k: "Suc k < nat (qsize q)" "k < nat (qsize q - 1)" using True by (simp_all add: q')
    then show "qlist q' ! k = tl (qlist q) ! k"
      by (simp add: qlist_def q' s nth_tl)
  qed
  then show ?thesis by (simp add: q'_def)
qed

lemma dequeue_Cons:
  assumes "queue_ok q" "qlist q = x # xs"
  shows "fst (dequeue q) = x" "qlist (snd (dequeue q)) = xs"
proof -
  from assms(2) have "0 < qsize q" using qlist_empty_iff [of q] by simp
  with assms show "fst (dequeue q) = x" by (simp add: fst_dequeue)
  from assms show "qlist (snd (dequeue q)) = xs" by (simp add: qlist_dequeue)
qed

lemma qlist_nth: "k < nat (qsize q) \<Longrightarrow> qlist q ! k = process_indices q (slot q k)"
  by (simp add: qlist_def)

lemma slot_inj_le:
  assumes "qsize q < MAX_PROCESSES" "i \<le> nat (qsize q)" "j \<le> nat (qsize q)"
  shows "slot q i = slot q j \<longleftrightarrow> i = j"
proof -
  from assms have "int i < MAX_PROCESSES" "int j < MAX_PROCESSES"
    by (simp_all add: MAX_PROCESSES_def)
  then show ?thesis using slot_inj [of q i j] by auto
qed

lemma scan_queue_slot:
  assumes "queue_ok q" "qsize q < MAX_PROCESSES" "k \<le> nat (qsize q)"
  shows "scan_queue q ps nt np (slot q k) =
         slot q (k + length (takeWhile (\<lambda>x. \<not> outranks nt np (ps ! nat x)) (drop k (qlist q))))"
  using assms(3)
proof (induction "nat (qsize q) - k" arbitrary: k)
  case 0
  then have "k = nat (qsize q)" by simp
  then show ?case using slot_end [OF assms(1)]
    by (subst scan_queue.simps) simp
next
  case (Suc d)
  then have kn: "k < nat (qsize q)" by simp
  with assms(2) have "slot q k \<noteq> slot q (nat (qsize q))"
    by (simp add: slot_inj_le)
  then have ne: "slot q k \<noteq> (rear q + 1) mod MAX_PROCESSES"
    by (simp add: slot_end [OF assms(1)])
  have dr: "drop k (qlist q) = process_indices q (slot q k) # drop (Suc k) (qlist q)"
    using kn by (simp add: qlist_nth flip: Cons_nth_drop_Suc)
  show ?case
  proof (cases "outranks nt np (ps ! nat (process_indices q (slot q k)))")
    case True
    then show ?thesis using ne
      by (subst scan_queue.simps) (auto simp: dr outranks_def)
  next
    case False
    have "d = nat (qsize q) - Suc k" using Suc.hyps(2) by simp
    moreover have "Suc k \<le> nat (qsize q)" using kn by simp
    ultimately have ih: "scan_queue q ps nt np (slot q (Suc k)) =
         slot q (Suc k + length (takeWhile (\<lambda>x. \<not> outranks nt np (ps ! nat x)) (drop (Suc k) (qlist q))))"
      by (rule Suc.hyps(1))
    from False ne ih show ?thesis
      by (subst scan_queue.simps) (auto simp: dr outranks_def slot_Suc)
  qed
qed

lemma shift_entries_slot:
  assumes "queue_ok q" "qsize q < MAX_PROCESSES" "k \<le> nat (qsize q)" "m \<le> nat (qsize q)"
  shows "shift_entries (rear q) a (slot q k) (slot q (Suc k)) temp (slot q m) =
         (if m \<le> k then a (slot q m)
          else if m = Suc k then temp
          else a (slot q (m - 1)))"
  using assms(3)
proof (induction "nat (qsize q) - k" arbitrary: k a temp)
  case 0
  then have "k = nat (qsize q)" by simp
  then show ?case using slot_end [OF assms(1)] assms(4)
    by (subst shift_entries.simps) simp
next
  case (Suc d)
  then have kn: "k < nat (qsize q)" by simp
  with assms(2) have "slot q k \<noteq> slot q (nat (qsize q))"
    by (simp add: slot_inj_le)
  then have ne: "slot q k \<noteq> (rear q + 1) mod MAX_PROCESSES"
    by (simp add: slot_end [OF assms(1)])
  have inj: "slot q i = slot q j \<longleftrightarrow> i = j" if "i \<le> nat (qsize q)" "j \<le> nat (qsize q)" for i j
    using that assms(2) by (simp add: slot_inj_le)
  have "d = nat (qsize q) - Suc k" using Suc.hyps(2) by simp
  moreover have sk: "Suc k \<le> nat (qsize q)" using kn by simp
  ultimately have ih: "shift_entries (rear q) a' (slot q (Suc k)) (slot q (Suc (Suc k))) temp' (slot q m) =
         (if m \<le> Suc k then a' (slot q m)
          else if m = Suc (Suc k) then temp'
          else a' (slot q (m - 1)))" for a' temp'
    by (rule Suc.hyps(1))
  have "shift_entries (rear q) a (slot q k) (slot q (Suc k)) temp (slot q m) =
        shift_entries (rear q) (a(slot q (Suc k) := temp)) (slot q (Suc k)) (slot q (Suc (Suc k)))
          (a (slot q (Suc k))) (slot q m)"
    using ne by (subst shift_entries.simps) (simp add: slot_Suc)
  also have "\<dots> = (if m \<le> k then a (slot q m)
          else if m = Suc k then temp
          else a (slot q (m - 1)))"
    using assms(4) sk by (auto simp: ih inj)
  finally show ?case .
qed

lemma enqueue_priority_full:
  "MAX_PROCESSES \<le> qsize q \<Longrightarrow> enqueue_priority q i ps = (q, [overflow_msg])"
  by (simp add: enqueue_priority_def)

lemma snd_enqueue_priority:
  "snd (enqueue_priority q i ps) = (if MAX_PROCESSES \<le> qsize q then [overflow_msg] else [])"
  by (simp add: enqueue_priority_def Let_def snd_enqueue)

lemma queue_ok_enqueue_priority:
  assumes "queue_ok q"
  shows "queue_ok (fst (enqueue_priority q i ps))"
proof -
  have "queue_ok (q\<lparr>process_indices := a, rear := (rear q + 1) mod MAX_PROCESSES,
                     qsize := qsize q + 1\<rparr>)" if "qsize q < MAX_PROCESSES" for a
    using queue_ok_enqueue [OF assms, of i] that
    by (simp add: enqueue_def Let_def queue_ok_def)
  with assms queue_ok_enqueue [OF assms, of i] show ?thesis
    by (auto simp: enqueue_priority_def Let_def)
qed

lemma qlist_enqueue_priority:
  assumes "queue_ok q" "qsize q < MAX_PROCESSES"
  shows "qlist (fst (enqueue_priority q i ps)) =
         insert_at (length (takeWhile
             (\<lambda>x. \<not> outranks (remaining_time (ps ! nat i)) (priority (ps ! nat i)) (ps ! nat x))
             (qlist q))) i (qlist q)"
proof -
  define n where "n = nat (qsize q)"
  define P where "P = (\<lambda>x. \<not> outranks (remaining_time (ps ! nat i)) (priority (ps ! nat i)) (ps ! nat x))"
  define j where "j = length (takeWhile P (qlist q))"
  from assms have n: "qsize q = int n" by (simp add: n_def queue_ok_def)
  have jn: "j \<le> n" unfolding j_def n_def by (metis length_qlist length_takeWhile_le)
  have scan: "scan_queue q ps (remaining_time (ps ! nat i)) (priority (ps ! nat i)) (front q) = slot q j"
    using scan_queue_slot [OF assms, of 0 ps] slot_0 [OF assms(1)] by (simp add: j_def P_def)
  have full: "\<not> MAX_PROCESSES \<le> qsize q" using assms(2) by simp
  show ?thesis
  proof (cases "j = n")
    case True
    then have "insert_at j i (qlist q) = qlist q @ [i]"
      by (simp add: insert_at_def n_def)
    moreover have "fst (enqueue_priority q i ps) = fst (enqueue q i)"
      using True scan slot_end [OF assms(1)] full
      by (simp add: enqueue_priority_def Let_def n_def)
    ultimately show ?thesis using full
      by (simp add: qlist_enqueue [OF assms(1)] j_def P_def)
  next
    case False
    with jn have jlt: "j < n" by simp
    have nr: "rear q \<noteq> - 1" using assms(1) jlt n by (auto simp: queue_ok_def)
    have ne: "slot q j \<noteq> (rear q + 1) mod MAX_PROCESSES"
      using slot_inj_le [OF assms(2), of j n] jlt slot_end [OF assms(1)] by (simp add: n_def)
    define a' where "a' = shift_entries (rear q) ((process_indices q)(slot q j := i)) (slot q j)
        (slot q (Suc j)) (process_indices q (slot q j))"
    define q' where "q' = fst (enqueue_priority q i ps)"
    have q': "front q' = front q" "qsize q' = int (Suc n)" "process_indices q' = a'"
      using full nr ne scan
      by (simp_all add: q'_def enqueue_priority_def Let_def a'_def slot_Suc n)
    have s: "slot q' k = slot q k" for k by (simp add: slot_def q')
    have a'_val: "a' (slot q m) =
         (if m \<le> j then ((process_indices q)(slot q j := i)) (slot q m)
          else if m = Suc j then process_indices q (slot q j)
          else ((process_indices q)(slot q j := i)) (slot q (m - 1)))" if "m \<le> n" for m
      unfolding a'_def using assms jlt that
      by (intro shift_entries_slot) (simp_all add: n_def)
    have inj: "slot q x = slot q y \<longleftrightarrow> x = y" if "x \<le> n" "y \<le> n" for x y
      using that assms(2) by (simp add: slot_inj_le n_def)
    have "qlist q' = insert_at j i (qlist q)"
    proof (rule nth_equalityI)
      show "length (qlist q') = length (insert_at j i (qlist q))"
        using jn by (simp add: q' insert_at_def n)
    next
      fix m assume "m < length (qlist q')"
      then have m: "m \<le> n" by (simp add: q')
      moreover from m have "m < nat (qsize q')" by (simp add: q')
      ultimately have "qlist q' ! m = a' (slot q m)" by (simp add: qlist_nth s q'(3))
      also have "\<dots> = insert_at j i (qlist q) ! m"
      proof -
        consider "m < j" | "m = j" | "m = Suc j" | "Suc j < m" by linarith
        then show ?thesis
        proof cases
          case 1
          then show ?thesis using m jlt
            by (simp add: a'_val inj insert_at_def nth_append qlist_nth n)
        next
          case 2
          then show ?thesis using m jlt
            by (simp add: a'_val inj insert_at_def nth_append n)
        next
          case 3
          then show ?thesis using m jlt
            by (simp add: a'_val inj insert_at_def nth_append qlist_nth n)
        next
          case 4
          then have "m - Suc 0 \<noteq> j" by simp
          with 4 show ?thesis using m jlt
            by (simp add: a'_val inj insert_at_def nth_append qlist_nth n nth_Cons')
        qed
      qed
      finally show "qlist q' ! m = insert_at j i (qlist q) ! m" .
    qed
    then show ?thesis by (simp add: q'_def j_def P_def)
  qed
qed

lemma ranks_before_trans': "\<not> ranks_before ps y z \<Longrightarrow> ranks_before ps x z \<Longrightarrow> ranks_before ps x y"
  by (auto simp: ranks_before_def outranks_def)

lemma ranks_before_asym: "ranks_before ps x y \<Longrightarrow> \<not> ranks_before ps y x"
  by (auto simp: ranks_before_def outranks_def)

lemma insert_at_takeWhile:
  "insert_at (length (takeWhile P xs)) x xs = takeWhile P xs @ x # dropWhile P xs"
  by (simp add: insert_at_def takeWhile_eq_take [symmetric] dropWhile_eq_drop [symmetric])

lemma dropWhile_all_outranked:
  assumes "queue_sorted ps xs"
  shows "\<forall>y\<in>set (dropWhile (\<lambda>x. \<not> ranks_before ps i x) xs). ranks_before ps i y"
  using assms
proof (induction xs)
  case Nil
  then show ?case by simp
next
  case (Cons a xs)
  from Cons.prems have sx: "queue_sorted ps xs"
    and ax: "\<forall>y\<in>set xs. \<not> ranks_before ps y a"
    by (simp_all add: queue_sorted_def)
  show ?case
  proof (cases "ranks_before ps i a")
    case True
    have "ranks_before ps i y" if "y \<in> set xs" for y
    proof -
      from ax that have "\<not> ranks_before ps y a" by (rule bspec)
      then show ?thesis using True by (rule ranks_before_trans')
    qed
    then have "\<forall>y\<in>set (a # xs). ranks_before ps i y" using True by simp
    moreover have "dropWhile (\<lambda>x. \<not> ranks_before ps i x) (a # xs) = a # xs"
      using True by simp
    ultimately show ?thesis by (simp only:)
  next
    case False
    then have "dropWhile (\<lambda>x. \<not> ranks_before ps i x) (a # xs)
        = dropWhile (\<lambda>x. \<not> ranks_before ps i x) xs"
      by simp
    with Cons.IH [OF sx] show ?thesis by (simp only:)
  qed
qed

lemma queue_sorted_insert:
  assumes "queue_sorted ps xs"
  shows "queue_sorted ps (takeWhile (\<lambda>x. \<not> ranks_before ps i x) xs @ i #
                           dropWhile (\<lambda>x. \<not> ranks_before ps i x) xs)"
proof -
  let ?P = "\<lambda>x. \<not> ranks_before ps i x"
  have "sorted_wrt (\<lambda>x y. \<not> ranks_before ps y x) (takeWhile ?P xs @ dropWhile ?P xs)"
    using assms by (simp add: queue_sorted_def)
  then have a: "sorted_wrt (\<lambda>x y. \<not> ranks_before ps y x) (takeWhile ?P xs)"
    and b: "sorted_wrt (\<lambda>x y. \<not> ranks_before ps y x) (dropWhile ?P xs)"
    and c: "\<forall>x\<in>set (takeWhile ?P xs). \<forall>y\<in>set (dropWhile ?P xs). \<not> ranks_before ps y x"
    unfolding sorted_wrt_append by simp_all
  have d: "\<forall>x\<in>set (takeWhile ?P xs). \<not> ranks_before ps i x"
    using set_takeWhileD by fastforce
  have e: "\<forall>y\<in>set (dropWhile ?P xs). \<not> ranks_before ps y i"
    using dropWhile_all_outranked [OF assms, of i] ranks_before_asym by blast
  from a b c d e show ?thesis
    unfolding queue_sorted_def sorted_wrt_append sorted_wrt.simps set_simps by blast
qed

lemma qlist_enqueue_priority_ranks:
  assumes "queue_ok q" "qsize q < MAX_PROCESSES"
  shows "qlist (fst (enqueue_priority q i ps)) =
         takeWhile (\<lambda>x. \<not> ranks_before ps i x) (qlist q) @ i #
         dropWhile (\<lambda>x. \<not> ranks_before ps i x) (qlist q)"
  using qlist_enqueue_priority [OF assms, of i ps]
  by (simp add: insert_at_takeWhile ranks_before_def)

subsection \<open>A full queue\<close>

lemma crowded_expiry:
  "handle_rr_quantum_expiry 2 crowded =
     crowded\<lparr>processes := (map crowded_process [0..<502])[0 := (crowded_process 0)\<lparr>quantum_used := 0, state := READY\<rparr>],
             stderr_log := [overflow_msg, overflow_msg],
             cpus := [\<lparr>cpu_id = 0, current_process = None, idle_time = 0, busy_time = 2\<rparr>]\<rparr>"
  by (simp add: crowded_def handle_rr_quantum_expiry_def expire_cpu_def enqueue_FCFSQ_def
        enqueue_def MAX_PROCESSES_def crowded_process_def)

lemma crowded_dispatch:
  "assign_processes_to_idle_cpus 2 (handle_rr_quantum_expiry 2 crowded) =
     crowded\<lparr>processes := (map crowded_process [0..<502])
                 [0 := (crowded_process 0)\<lparr>quantum_used := 0, state := READY\<rparr>,
                  1 := (crowded_process 1)\<lparr>state := RUNNING, start_time := 2, response_time := 2, quantum_used := 0\<rparr>],
             stderr_log := [overflow_msg, overflow_msg],
             cpus := [\<lparr>cpu_id = 0, current_process = Some 1, idle_time = 0, busy_time = 2\<rparr>],
             FCFSQ := \<lparr>process_indices = (\<lambda>i. if i = 0 then 500 else i), front = 2, rear = 0,
               qsize = 499\<rparr>\<rparr>"
  unfolding crowded_expiry
  by (simp add: crowded_def assign_processes_to_idle_cpus_def assign_loop.simps dequeue_def
        MAX_PROCESSES_def crowded_process_def)

lemma crowded_expiry_queue:
  "0 \<notin> set (qlist (FCFSQ (handle_rr_quantum_expiry 2 crowded)))"
  unfolding crowded_expiry by (auto simp: crowded_def qlist_def slot_def)

lemma crowded_dispatch_queue:
  "0 \<notin> set (qlist (FCFSQ (assign_processes_to_idle_cpus 2 (handle_rr_quantum_expiry 2 crowded))))"
  unfolding crowded_dispatch by (auto simp: crowded_def qlist_def slot_def)

lemma crowded_ok: "queue_ok (FCFSQ crowded)" "qsize (FCFSQ crowded) = MAX_PROCESSES"
  by (simp_all add: crowded_def queue_ok_def MAX_PROCESSES_def)

section \<open>Dispatch refines its specification\<close>

lemma dequeue_Nil: "qlist q = [] \<Longrightarrow> dequeue q = (- 1, q)"
  by (simp add: dequeue_empty qlist_empty_iff)

lemma dequeue_Cons_eq:
  assumes "queue_ok q" "qlist q = x # xs"
  shows "\<exists>q'. dequeue q = (x, q') \<and> qlist q' = xs \<and> queue_ok q'"
proof -
  from dequeue_Cons [OF assms] queue_ok_dequeue [OF assms(1)]
  have "dequeue q = (x, snd (dequeue q))" "qlist (snd (dequeue q)) = xs" "queue_ok (snd (dequeue q))"
    by (simp_all add: prod_eq_iff)
  then show ?thesis by blast
qed

lemma assign_loop_refines:
  assumes "queue_ok (FCFSQ s)" "\<forall>idx\<in>set (qlist (FCFSQ s)). 0 \<le> idx" "c \<le> length (cpus s)"
  shows "case dispatch_spec t (drop c (map current_process (cpus s))) (qlist (FCFSQ s)) (processes s) of
           (occ, queue, ps) \<Rightarrow>
             map current_process (cpus (assign_loop t c s)) = take c (map current_process (cpus s)) @ occ
             \<and> qlist (FCFSQ (assign_loop t c s)) = queue
             \<and> processes (assign_loop t c s) = ps
             \<and> queue_ok (FCFSQ (assign_loop t c s))"
  using assms
proof (induction t c s rule: assign_loop.induct)
  case (1 t c s)
  let ?occ = "map current_process (cpus s)"
  show ?case
  proof (cases "c < length (cpus s)")
    case False
    with "1.prems" show ?thesis
      by (subst (1 2 3 4) assign_loop.simps) simp
  next
    case c: True
    then have dr: "drop c ?occ = current_process (cpus s ! c) # drop (Suc c) ?occ"
      by (simp flip: Cons_nth_drop_Suc)
    have tk: "take (Suc c) ?occ = take c ?occ @ [current_process (cpus s ! c)]"
      using c by (simp add: take_Suc_conv_app_nth)
    show ?thesis
    proof (cases "current_process (cpus s ! c)")
      case (Some i)
      have step: "assign_loop t c s = assign_loop t (c + 1) s"
        using c Some by (subst assign_loop.simps) simp
      from "1.IH"(1) [OF c] Some "1.prems" c
      have "case dispatch_spec t (drop (c + 1) ?occ) (qlist (FCFSQ s)) (processes s) of
           (occ, queue, ps) \<Rightarrow>
             map current_process (cpus (assign_loop t (c + 1) s)) = take (c + 1) ?occ @ occ
             \<and> qlist (FCFSQ (assign_loop t (c + 1) s)) = queue
             \<and> processes (assign_loop t (c + 1) s) = ps
             \<and> queue_ok (FCFSQ (assign_loop t (c + 1) s))"
        by simp
      then show ?thesis
        by (simp add: step dr tk Some split: prod.splits)
    next
      case None
      then have nn: "\<not> current_process (cpus s ! c) \<noteq> None" by simp
      show ?thesis
      proof (cases "qlist (FCFSQ s)")
        case Nil
        then have step: "assign_loop t c s = s"
          using c None by (subst assign_loop.simps) (simp add: dequeue_Nil)
        have "take c ?occ @ None # drop (Suc c) ?occ = ?occ"
          using append_take_drop_id [of c ?occ] by (simp only: dr None)
        then show ?thesis using "1.prems"(1)
          by (simp add: step dr None Nil)
      next
        case (Cons x xs)
        from dequeue_Cons_eq [OF "1.prems"(1) Cons]
        obtain q' where dq: "dequeue (FCFSQ s) = (x, q')" and q': "qlist q' = xs" "queue_ok q'"
          by blast
        from "1.prems"(2) Cons have x0: "x \<noteq> - 1" and xs0: "\<forall>idx\<in>set xs. 0 \<le> idx"
          by auto
        show ?thesis
        proof (cases "ineligible t (processes s) x")
          case True
          let ?s' = "s\<lparr>FCFSQ := q', discards := discards s + 1\<rparr>"
          have step: "assign_loop t c s = assign_loop t c ?s'"
            using c None dq x0 True by (subst assign_loop.simps) (simp add: ineligible_def)
          have "case dispatch_spec t (drop c (map current_process (cpus ?s'))) (qlist (FCFSQ ?s')) (processes ?s') of
             (occ, queue, ps) \<Rightarrow>
             map current_process (cpus (assign_loop t c ?s')) = take c (map current_process (cpus ?s')) @ occ
             \<and> qlist (FCFSQ (assign_loop t c ?s')) = queue
             \<and> processes (assign_loop t c ?s') = ps
             \<and> queue_ok (FCFSQ (assign_loop t c ?s'))"
            using True q' xs0 "1.prems"(3)
            by (intro "1.IH"(2) [OF c nn dq [symmetric] x0]) (simp_all add: ineligible_def)
          then show ?thesis using True
            by (simp add: step dr None Cons q')
        next
          case False
          let ?s' = "s\<lparr>FCFSQ := q',
                       cpus := (cpus s)[c := (cpus s ! c)\<lparr>current_process := Some (nat x)\<rparr>],
                       processes := (processes s)[nat x := dispatched t (processes s ! nat x)]\<rparr>"
          have step: "assign_loop t c s = assign_loop t (c + 1) ?s'"
            using c None dq x0 False
            by (subst assign_loop.simps) (simp add: ineligible_def dispatched_def)
          have "case dispatch_spec t (drop (c + 1) (map current_process (cpus ?s'))) (qlist (FCFSQ ?s')) (processes ?s') of
             (occ, queue, ps) \<Rightarrow>
             map current_process (cpus (assign_loop t (c + 1) ?s')) = take (c + 1) (map current_process (cpus ?s')) @ occ
             \<and> qlist (FCFSQ (assign_loop t (c + 1) ?s')) = queue
             \<and> processes (assign_loop t (c + 1) ?s') = ps
             \<and> queue_ok (FCFSQ (assign_loop t (c + 1) ?s'))"
            using False q' xs0 c
            unfolding dispatched_def
            by (intro "1.IH"(3) [OF c nn dq [symmetric] x0]) (simp_all add: ineligible_def)
          moreover have "drop (Suc c) (map current_process (cpus ?s')) = drop (Suc c) ?occ"
            by (simp add: drop_map flip: map_update)
          moreover have "take (Suc c) (map current_process (cpus ?s')) = take c ?occ @ [Some (nat x)]"
            using c by (simp add: take_Suc_conv_app_nth take_map flip: map_update)
          ultimately show ?thesis using False
            by (simp add: step dr None Cons q' split: prod.splits)
        qed
      qed
    qed
  qed
qed

section \<open>Preservation of the invariant\<close>

lemma enqueue_FCFSQ_frame [simp]:
  "processes (enqueue_FCFSQ x s) = processes s"
  "cpus (enqueue_FCFSQ x s) = cpus s"
  "discards (enqueue_FCFSQ x s) = discards s"
  "current_time (enqueue_FCFSQ x s) = current_time s"
  "completed_count (enqueue_FCFSQ x s) = completed_count s"
  "FCFSQ (enqueue_FCFSQ x s) = fst (enqueue (FCFSQ s) x)"
  by (simp_all add: enqueue_FCFSQ_def split: prod.splits)

lemma enqueue_priority_FCFSQ_frame [simp]:
  "processes (enqueue_priority_FCFSQ x s) = processes s"
  "cpus (enqueue_priority_FCFSQ x s) = cpus s"
  "discards (enqueue_priority_FCFSQ x s) = discards s"
  "current_time (enqueue_priority_FCFSQ x s) = current_time s"
  "completed_count (enqueue_priority_FCFSQ x s) = completed_count s"
  "FCFSQ (enqueue_priority_FCFSQ x s) = fst (enqueue_priority (FCFSQ s) x (processes s))"
  by (simp_all add: enqueue_priority_FCFSQ_def split: prod.splits)

lemma set_qlist_enqueue:
  "queue_ok q \<Longrightarrow> set (qlist (fst (enqueue q x))) \<subseteq> insert x (set (qlist q))"
  by (auto simp: qlist_enqueue)

lemma distinct_qlist_enqueue:
  "queue_ok q \<Longrightarrow> distinct (qlist q) \<Longrightarrow> x \<notin> set (qlist q) \<Longrightarrow>
   distinct (qlist (fst (enqueue q x)))"
  by (simp add: qlist_enqueue)

lemma qlist_enqueue_priority_cases:
  assumes "queue_ok q"
  shows "qlist (fst (enqueue_priority q x ps)) = qlist q \<or>
         (\<exists>ys zs. qlist q = ys @ zs \<and> qlist (fst (enqueue_priority q x ps)) = ys @ x # zs)"
proof (cases "MAX_PROCESSES \<le> qsize q")
  case True
  then show ?thesis by (simp add: enqueue_priority_full)
next
  case False
  then have "qsize q < MAX_PROCESSES" by simp
  from qlist_enqueue_priority_ranks [OF assms this, of x ps] show ?thesis
    by (metis takeWhile_dropWhile_id)
qed

lemma set_qlist_enqueue_priority:
  "queue_ok q \<Longrightarrow> set (qlist (fst (enqueue_priority q x ps))) \<subseteq> insert x (set (qlist q))"
  using qlist_enqueue_priority_cases [of q x ps] by auto

lemma distinct_qlist_enqueue_priority:
  "queue_ok q \<Longrightarrow> distinct (qlist q) \<Longrightarrow> x \<notin> set (qlist q) \<Longrightarrow>
   distinct (qlist (fst (enqueue_priority q x ps)))"
  using qlist_enqueue_priority_cases [of q x ps] by auto

lemma queue_entries_ok_grow:
  assumes "queue_entries_ok t ps xs" "distinct ys" "set ys \<subseteq> insert x (set xs)"
    "0 \<le> x" "nat x < length ps" "state (ps ! nat x) = READY" "arrival_time (ps ! nat x) \<le> t"
  shows "queue_entries_ok t ps ys"
  using assms unfolding queue_entries_ok_def by auto

lemma sched_inv_enqueue:
  assumes "sched_inv t s" "0 \<le> x" "nat x < length (processes s)"
    "state (processes s ! nat x) = READY" "arrival_time (processes s ! nat x) \<le> t"
    "x \<notin> set (qlist (FCFSQ s))"
  shows "sched_inv t (enqueue_FCFSQ x s)"
proof -
  from assms(1) have ok: "queue_ok (FCFSQ s)" and d: "distinct (qlist (FCFSQ s))"
    and e: "queue_entries_ok t (processes s) (qlist (FCFSQ s))"
    by (simp_all add: sched_inv_def queue_entries_ok_def)
  have "queue_entries_ok t (processes s) (qlist (fst (enqueue (FCFSQ s) x)))"
    using e distinct_qlist_enqueue [OF ok d assms(6)] set_qlist_enqueue [OF ok] assms(2-5)
    by (rule queue_entries_ok_grow)
  with assms(1) queue_ok_enqueue [OF ok] show ?thesis
    by (simp add: sched_inv_def)
qed

lemma sched_inv_enqueue_priority:
  assumes "sched_inv t s" "0 \<le> x" "nat x < length (processes s)"
    "state (processes s ! nat x) = READY" "arrival_time (processes s ! nat x) \<le> t"
    "x \<notin> set (qlist (FCFSQ s))"
  shows "sched_inv t (enqueue_priority_FCFSQ x s)"
proof -
  from assms(1) have ok: "queue_ok (FCFSQ s)" and d: "distinct (qlist (FCFSQ s))"
    and e: "queue_entries_ok t (processes s) (qlist (FCFSQ s))"
    by (simp_all add: sched_inv_def queue_entries_ok_def)
  have "queue_entries_ok t (processes s) (qlist (fst (enqueue_priority (FCFSQ s) x (processes s))))"
    using e distinct_qlist_enqueue_priority [OF ok d assms(6)] set_qlist_enqueue_priority [OF ok]
      assms(2-5)
    by (rule queue_entries_ok_grow)
  with assms(1) queue_ok_enqueue_priority [OF ok] show ?thesis
    by (simp add: sched_inv_def)
qed

lemma admit_arrival_frame [simp]:
  "processes (admit_arrival alg x s) = processes s"
  "cpus (admit_arrival alg x s) = cpus s"
  "current_time (admit_arrival alg x s) = current_time s"
  "completed_count (admit_arrival alg x s) = completed_count s"
  by (simp_all add: admit_arrival_def split: Algorithm.splits)

lemma set_qlist_admit:
  "queue_ok (FCFSQ s) \<Longrightarrow>
   set (qlist (FCFSQ (admit_arrival alg x s))) \<subseteq> insert x (set (qlist (FCFSQ s)))"
  using set_qlist_enqueue [of "FCFSQ s" x] set_qlist_enqueue_priority [of "FCFSQ s" x "processes s"]
  by (cases alg) (auto simp: admit_arrival_def)

lemma sched_inv_admit:
  assumes "sched_inv t s" "0 \<le> x" "nat x < length (processes s)"
    "state (processes s ! nat x) = READY" "arrival_time (processes s ! nat x) \<le> t"
    "x \<notin> set (qlist (FCFSQ s))"
  shows "sched_inv t (admit_arrival alg x s)"
  using sched_inv_enqueue [OF assms] sched_inv_enqueue_priority [OF assms] assms(1)
  by (cases alg) (simp_all add: admit_arrival_def)

lemma sched_inv_fold_admit:
  assumes "sched_inv t s" "pending_ok t s arrived"
  shows "sched_inv t (fold (admit_arrival alg) arrived s)
         \<and> processes (fold (admit_arrival alg) arrived s) = processes s
         \<and> cpus (fold (admit_arrival alg) arrived s) = cpus s"
  using assms
proof (induction arrived arbitrary: s)
  case Nil
  then show ?case by simp
next
  case (Cons x xs)
  from Cons.prems(2) have x: "0 \<le> x" "nat x < length (processes s)"
    "state (processes s ! nat x) = READY" "arrival_time (processes s ! nat x) \<le> t"
    "x \<notin> set (qlist (FCFSQ s))" and nx: "x \<notin> set xs" and dx: "distinct xs"
    by (simp_all add: pending_ok_def)
  have inv: "sched_inv t (admit_arrival alg x s)"
    using Cons.prems(1) x by (rule sched_inv_admit)
  from Cons.prems(1) have ok: "queue_ok (FCFSQ s)" by (simp add: sched_inv_def)
  have "pending_ok t (admit_arrival alg x s) xs"
    unfolding pending_ok_def
  proof (intro conjI ballI)
    show "distinct xs" by (rule dx)
  next
    fix y assume y: "y \<in> set xs"
    with Cons.prems(2) show "0 \<le> y" "nat y < length (processes (admit_arrival alg x s))"
      "state (processes (admit_arrival alg x s) ! nat y) = READY"
      "arrival_time (processes (admit_arrival alg x s) ! nat y) \<le> t"
      by (simp_all add: pending_ok_def)
    from y Cons.prems(2) have "y \<notin> set (qlist (FCFSQ s))" by (simp add: pending_ok_def)
    moreover from y nx have "y \<noteq> x" by auto
    ultimately show "y \<notin> set (qlist (FCFSQ (admit_arrival alg x s)))"
      using set_qlist_admit [OF ok, of alg x] by auto
  qed
  from Cons.IH [OF inv this] show ?case by simp
qed

lemma sched_inv_fold_enqueue:
  assumes "sched_inv t s" "pending_ok t s arrived"
  shows "sched_inv t (fold enqueue_FCFSQ arrived s)"
proof -
  have "fold enqueue_FCFSQ arrived s = fold (admit_arrival FCFS) arrived s"
    by (rule arg_cong [where f = "\<lambda>f. fold f arrived s"]) (simp add: fun_eq_iff admit_arrival_def)
  with sched_inv_fold_admit [OF assms, of FCFS] show ?thesis by simp
qed

lemma arrivals_upto_bound: "i \<in> set (arrivals_upto t ps k) \<Longrightarrow> i < k \<and> arrival_time (ps ! i) = t"
  unfolding arrivals_upto_def by (auto dest: in_set_takeD)

lemma distinct_arrivals_upto: "distinct (arrivals_upto t ps k)"
  unfolding arrivals_upto_def by (simp add: distinct_take)

lemma arrivals_upto_Suc:
  "arrivals_upto t ps (Suc k) =
     (if arrival_time (ps ! k) = t \<and> int (length (arrivals_upto t ps k)) < MAX_PROCESSES
      then arrivals_upto t ps k @ [k] else arrivals_upto t ps k)"
  unfolding arrivals_upto_def by (auto simp: MAX_PROCESSES_def min_def)

lemma fold_mark_arrival:
  assumes "k \<le> length ps"
  shows "fold (mark_arrival t) [0..<k] (ps, []) =
         (map (\<lambda>i. if i \<in> set (arrivals_upto t ps k)
                    then (ps ! i)\<lparr>state := READY, quantum_used := 0\<rparr> else ps ! i) [0..<length ps],
          map int (arrivals_upto t ps k))"
  using assms
proof (induction k)
  case 0
  then show ?case by (simp add: arrivals_upto_def map_nth)
next
  case (Suc k)
  then have k: "k < length ps" by simp
  from arrivals_upto_bound [of k t ps k] have nk: "k \<notin> set (arrivals_upto t ps k)" by auto
  let ?ps = "map (\<lambda>i. if i \<in> set (arrivals_upto t ps k)
                    then (ps ! i)\<lparr>state := READY, quantum_used := 0\<rparr> else ps ! i) [0..<length ps]"
  have pk: "?ps ! k = ps ! k" using k nk by simp
  have upd: "?ps[k := (ps ! k)\<lparr>state := READY, quantum_used := 0\<rparr>] =
      map (\<lambda>i. if i \<in> set (arrivals_upto t ps k @ [k])
                    then (ps ! i)\<lparr>state := READY, quantum_used := 0\<rparr> else ps ! i) [0..<length ps]"
    using k by (auto intro!: nth_equalityI simp: nth_list_update)
  from Suc.IH k show ?case
    by (simp add: mark_arrival_def pk upd arrivals_upto_Suc)
qed

lemma length_marked [simp]: "length (marked t ps) = length ps"
  by (simp add: marked_def)

lemma marked_nth:
  "i < length ps \<Longrightarrow>
   marked t ps ! i = (if i \<in> set (arrivals_upto t ps (length ps))
                      then (ps ! i)\<lparr>state := READY, quantum_used := 0\<rparr> else ps ! i)"
  by (simp add: marked_def)

lemma marked_arrival_time [simp]:
  "i < length ps \<Longrightarrow> arrival_time (marked t ps ! i) = arrival_time (ps ! i)"
  by (simp add: marked_nth)

lemma marked_same:
  "i < length ps \<Longrightarrow> arrival_time (ps ! i) \<noteq> t \<Longrightarrow> marked t ps ! i = ps ! i"
  using arrivals_upto_bound [of i t ps "length ps"] by (auto simp: marked_nth)

lemma handle_arrivals_eq:
  "handle_arrivals alg t s =
     (fold (admit_arrival alg) (map int (arrivals_upto t (processes s) (length (processes s))))
        (s\<lparr>processes := marked t (processes s)\<rparr>),
      map int (arrivals_upto t (processes s) (length (processes s))))"
  by (simp add: handle_arrivals_def fold_mark_arrival marked_def)

lemma sched_inv_marked:
  assumes "sched_inv (t - 1) s"
  shows "sched_inv t (s\<lparr>processes := marked t (processes s)\<rparr>)"
    and "pending_ok t (s\<lparr>processes := marked t (processes s)\<rparr>)
           (map int (arrivals_upto t (processes s) (length (processes s))))"
proof -
  let ?ps = "processes s"
  from assms have ok: "queue_ok (FCFSQ s)"
    and q: "queue_entries_ok (t - 1) ?ps (qlist (FCFSQ s))"
    and o: "occupants_ok ?ps (cpus s)"
    and n: "not_arrived_ok (t - 1) ?ps"
    and d: "discards s = 0"
    by (simp_all add: sched_inv_def)
  have q': "queue_entries_ok t (marked t ?ps) (qlist (FCFSQ s))"
    unfolding queue_entries_ok_def
  proof (intro conjI ballI)
    show "distinct (qlist (FCFSQ s))" using q by (simp add: queue_entries_ok_def)
  next
    fix idx assume "idx \<in> set (qlist (FCFSQ s))"
    with q have i: "0 \<le> idx" "nat idx < length ?ps" "state (?ps ! nat idx) = READY"
      "arrival_time (?ps ! nat idx) \<le> t - 1"
      by (simp_all add: queue_entries_ok_def)
    then have "marked t ?ps ! nat idx = ?ps ! nat idx" by (intro marked_same) simp_all
    with i show "0 \<le> idx" "nat idx < length (marked t ?ps)"
      "state (marked t ?ps ! nat idx) = READY" "arrival_time (marked t ?ps ! nat idx) \<le> t"
      by simp_all
  qed
  have o': "occupants_ok (marked t ?ps) (cpus s)"
    unfolding occupants_ok_def
  proof (intro conjI allI impI)
    fix c i assume "c < length (cpus s)" "current_process (cpus s ! c) = Some i"
    with o have i: "i < length ?ps" "state (?ps ! i) = RUNNING" by (auto simp: occupants_ok_def)
    with n have "arrival_time (?ps ! i) \<noteq> t" by (auto simp: not_arrived_ok_def)
    with i have "marked t ?ps ! i = ?ps ! i" by (intro marked_same)
    with i show "i < length (marked t ?ps)" "state (marked t ?ps ! i) = RUNNING" by simp_all
  next
    fix c d i
    assume "c < length (cpus s)" "d < length (cpus s)"
      "current_process (cpus s ! c) = Some i \<and> current_process (cpus s ! d) = Some i"
    with o show "c = d" unfolding occupants_ok_def by blast
  qed
  have n': "not_arrived_ok t (marked t ?ps)"
    unfolding not_arrived_ok_def
  proof (intro allI impI)
    fix i assume i: "i < length (marked t ?ps)" "t < arrival_time (marked t ?ps ! i)"
    then have "marked t ?ps ! i = ?ps ! i" by (intro marked_same) simp_all
    moreover from i n have "state (?ps ! i) = WAITING" by (auto simp: not_arrived_ok_def)
    ultimately show "state (marked t ?ps ! i) = WAITING" by simp
  qed
  from ok q' o' n' d show "sched_inv t (s\<lparr>processes := marked t ?ps\<rparr>)"
    by (simp add: sched_inv_def)
  show "pending_ok t (s\<lparr>processes := marked t ?ps\<rparr>)
           (map int (arrivals_upto t ?ps (length ?ps)))"
    unfolding pending_ok_def
  proof (intro conjI ballI)
    show "distinct (map int (arrivals_upto t ?ps (length ?ps)))"
      by (simp add: distinct_map distinct_arrivals_upto)
  next
    fix x assume "x \<in> set (map int (arrivals_upto t ?ps (length ?ps)))"
    then obtain i where x: "x = int i" and i: "i \<in> set (arrivals_upto t ?ps (length ?ps))"
      by auto
    from arrivals_upto_bound [OF i] have b: "i < length ?ps" "arrival_time (?ps ! i) = t" by simp_all
    from b i show "0 \<le> x" "nat x < length (processes (s\<lparr>processes := marked t ?ps\<rparr>))"
      "state (processes (s\<lparr>processes := marked t ?ps\<rparr>) ! nat x) = READY"
      "arrival_time (processes (s\<lparr>processes := marked t ?ps\<rparr>) ! nat x) \<le> t"
      by (simp_all add: x marked_nth)
    show "x \<notin> set (qlist (FCFSQ (s\<lparr>processes := marked t ?ps\<rparr>)))"
    proof
      assume "x \<in> set (qlist (FCFSQ (s\<lparr>processes := marked t ?ps\<rparr>)))"
      with q have "arrival_time (?ps ! nat x) \<le> t - 1" by (simp add: queue_entries_ok_def)
      with b show False by (simp add: x)
    qed
  qed
qed

lemma sched_inv_handle_arrivals:
  assumes "sched_inv (t - 1) s"
  shows "sched_inv t (fst (handle_arrivals alg t s))"
    and "alg = RR \<Longrightarrow> pending_ok t (fst (handle_arrivals alg t s)) (snd (handle_arrivals alg t s))"
    and "cpus (fst (handle_arrivals alg t s)) = cpus s"
    and "length (processes (fst (handle_arrivals alg t s))) = length (processes s)"
proof -
  note m = sched_inv_marked [OF assms]
  from sched_inv_fold_admit [OF m, of alg]
  show "sched_inv t (fst (handle_arrivals alg t s))"
    and "cpus (fst (handle_arrivals alg t s)) = cpus s"
    and "length (processes (fst (handle_arrivals alg t s))) = length (processes s)"
    by (simp_all add: handle_arrivals_eq)
  have "fold (admit_arrival RR) xs s' = s'" for xs s'
    by (induction xs) (simp_all add: admit_arrival_def)
  with m(2) show "pending_ok t (fst (handle_arrivals alg t s)) (snd (handle_arrivals alg t s))"
    if "alg = RR"
    using that by (simp add: handle_arrivals_eq)
qed

lemma fold_upt_invariant:
  assumes "P s" "length (cpus s) = n"
    and step: "\<And>c s. c < n \<Longrightarrow> P s \<Longrightarrow> length (cpus s) = n \<Longrightarrow>
                P (f c s) \<and> length (cpus (f c s)) = n"
  shows "k \<le> n \<Longrightarrow> P (fold f [0..<k] s) \<and> length (cpus (fold f [0..<k] s)) = n"
proof (induction k)
  case 0
  with assms(1,2) show ?case by simp
next
  case (Suc k)
  then have "P (fold f [0..<k] s) \<and> length (cpus (fold f [0..<k] s)) = n" and "k < n"
    by simp_all
  with step [of k "fold f [0..<k] s"] show ?case by simp
qed

lemma occupant_arrived:
  assumes "not_arrived_ok t ps" "i < length ps" "state (ps ! i) = RUNNING"
  shows "arrival_time (ps ! i) \<le> t"
proof (rule ccontr)
  assume "\<not> arrival_time (ps ! i) \<le> t"
  with assms(1,2) have "state (ps ! i) = WAITING" by (simp add: not_arrived_ok_def)
  with assms(3) show False by simp
qed

lemma not_arrived_ok_update:
  assumes "not_arrived_ok t ps" "arrival_time p \<le> t"
  shows "not_arrived_ok t (ps[i := p])"
  unfolding not_arrived_ok_def
proof (intro allI impI)
  fix j assume j: "j < length (ps[i := p])" "t < arrival_time (ps[i := p] ! j)"
  show "state (ps[i := p] ! j) = WAITING"
  proof (cases "j = i")
    case True
    with j assms(2) show ?thesis by simp
  next
    case False
    with j assms(1) show ?thesis by (simp add: not_arrived_ok_def)
  qed
qed

lemma occupant_after_free:
  assumes "e < length cs" "current_process (cs[c := (cs ! c)\<lparr>current_process := None\<rparr>] ! e) = Some j"
  shows "e \<noteq> c" "current_process (cs ! e) = Some j"
  using assms by (cases "e = c"; simp)+

lemma sched_inv_expire_cpu:
  assumes inv: "sched_inv t s" and c: "c < length (cpus s)"
  shows "sched_inv t (expire_cpu tq c s) \<and> length (cpus (expire_cpu tq c s)) = length (cpus s)"
proof (cases "current_process (cpus s ! c)")
  case None
  with inv show ?thesis by (simp add: expire_cpu_def)
next
  case (Some i)
  let ?ps = "processes s"
  from inv have ok: "queue_ok (FCFSQ s)"
    and q: "queue_entries_ok t ?ps (qlist (FCFSQ s))"
    and o: "occupants_ok ?ps (cpus s)"
    and n: "not_arrived_ok t ?ps"
    and d: "discards s = 0"
    by (simp_all add: sched_inv_def)
  from o c Some have i: "i < length ?ps" "state (?ps ! i) = RUNNING"
    by (auto simp: occupants_ok_def)
  show ?thesis
  proof (cases "remaining_time (?ps ! i) > 0 \<and> quantum_used (?ps ! i) \<ge> tq")
    case False
    with inv Some show ?thesis by (auto simp: expire_cpu_def)
  next
    case True
    let ?ps' = "?ps[i := (?ps ! i)\<lparr>quantum_used := 0, state := READY\<rparr>]"
    let ?s1 = "s\<lparr>processes := ?ps'\<rparr>"
    let ?cs' = "(cpus s)[c := (cpus s ! c)\<lparr>current_process := None\<rparr>]"
    have eq: "expire_cpu tq c s = (enqueue_FCFSQ (int i) ?s1)\<lparr>cpus := ?cs'\<rparr>"
      using True Some i by (simp add: expire_cpu_def Let_def)
    have notq: "int i \<notin> set (qlist (FCFSQ s))"
    proof
      assume "int i \<in> set (qlist (FCFSQ s))"
      with q have "state (?ps ! nat (int i)) = READY" unfolding queue_entries_ok_def by blast
      with i show False by simp
    qed
    have q1: "queue_entries_ok t ?ps' (qlist (FCFSQ s))"
      unfolding queue_entries_ok_def
    proof (intro conjI ballI)
      show "distinct (qlist (FCFSQ s))" using q by (simp add: queue_entries_ok_def)
    next
      fix idx assume m: "idx \<in> set (qlist (FCFSQ s))"
      with q have x: "0 \<le> idx" "nat idx < length ?ps" "state (?ps ! nat idx) = READY"
        "arrival_time (?ps ! nat idx) \<le> t"
        by (simp_all add: queue_entries_ok_def)
      from m notq x(1) have "nat idx \<noteq> i" by auto
      with x show "0 \<le> idx" "nat idx < length ?ps'" "state (?ps' ! nat idx) = READY"
        "arrival_time (?ps' ! nat idx) \<le> t"
        by simp_all
    qed
    have o1: "occupants_ok ?ps' ?cs'"
      unfolding occupants_ok_def
    proof (intro conjI allI impI)
      fix e j assume e: "e < length ?cs'" "current_process (?cs' ! e) = Some j"
      then have ec: "e \<noteq> c" and ej: "current_process (cpus s ! e) = Some j" "e < length (cpus s)"
        using occupant_after_free [of e "cpus s" c j] by simp_all
      with o have j: "j < length ?ps" "state (?ps ! j) = RUNNING" by (auto simp: occupants_ok_def)
      from o ec ej c Some have "j \<noteq> i" unfolding occupants_ok_def by blast
      with j show "j < length ?ps'" "state (?ps' ! j) = RUNNING" by simp_all
    next
      fix e f j assume "e < length ?cs'" "f < length ?cs'"
        "current_process (?cs' ! e) = Some j \<and> current_process (?cs' ! f) = Some j"
      then have "e < length (cpus s)" "f < length (cpus s)"
        "current_process (cpus s ! e) = Some j" "current_process (cpus s ! f) = Some j"
        using occupant_after_free [of e "cpus s" c j] occupant_after_free [of f "cpus s" c j]
        by simp_all
      with o show "e = f" unfolding occupants_ok_def by blast
    qed
    have n1: "not_arrived_ok t ?ps'"
      using n occupant_arrived [OF n i] by (intro not_arrived_ok_update) simp_all
    have inv1: "sched_inv t (?s1\<lparr>cpus := ?cs'\<rparr>)"
      using ok q1 o1 n1 d by (simp add: sched_inv_def)
    have "sched_inv t (enqueue_FCFSQ (int i) (?s1\<lparr>cpus := ?cs'\<rparr>))"
      using inv1 i notq occupant_arrived [OF n i]
      by (intro sched_inv_enqueue) simp_all
    moreover have "enqueue_FCFSQ (int i) (?s1\<lparr>cpus := ?cs'\<rparr>) = (enqueue_FCFSQ (int i) ?s1)\<lparr>cpus := ?cs'\<rparr>"
      by (simp add: enqueue_FCFSQ_def split: prod.splits)
    ultimately show ?thesis by (simp add: eq)
  qed
qed

lemma sched_inv_rr_expiry:
  assumes "sched_inv t s"
  shows "sched_inv t (handle_rr_quantum_expiry tq s)
         \<and> length (cpus (handle_rr_quantum_expiry tq s)) = length (cpus s)"
  unfolding handle_rr_quantum_expiry_def
proof (rule fold_upt_invariant [where P = "sched_inv t"])
  show "sched_inv t s" by fact
  show "length (cpus s) = length (cpus s)" ..
  show "length (cpus s) \<le> length (cpus s)" ..
  fix c s' assume "c < length (cpus s)" "sched_inv t s'" "length (cpus s') = length (cpus s)"
  then show "sched_inv t (expire_cpu tq c s') \<and> length (cpus (expire_cpu tq c s')) = length (cpus s)"
    using sched_inv_expire_cpu [of t s' c tq] by simp
qed

lemma sched_inv_dispatch_step:
  assumes inv: "sched_inv t s" and c: "c < length (cpus s)"
    and idle: "current_process (cpus s ! c) = None"
    and dq: "dequeue (FCFSQ s) = (x, q')" and ql: "qlist (FCFSQ s) = x # xs"
  shows "sched_inv t (s\<lparr>FCFSQ := q',
                         cpus := (cpus s)[c := (cpus s ! c)\<lparr>current_process := Some (nat x)\<rparr>],
                         processes := (processes s)[nat x := dispatched t (processes s ! nat x)]\<rparr>)"
proof -
  let ?ps = "processes s"
  let ?ps' = "?ps[nat x := dispatched t (?ps ! nat x)]"
  let ?cs' = "(cpus s)[c := (cpus s ! c)\<lparr>current_process := Some (nat x)\<rparr>]"
  from inv have ok: "queue_ok (FCFSQ s)"
    and q: "queue_entries_ok t ?ps (qlist (FCFSQ s))"
    and o: "occupants_ok ?ps (cpus s)"
    and n: "not_arrived_ok t ?ps"
    and d: "discards s = 0"
    by (simp_all add: sched_inv_def)
  from dequeue_Cons [OF ok ql] queue_ok_dequeue [OF ok] dq
  have q': "qlist q' = xs" "queue_ok q'" by simp_all
  from q ql have x: "0 \<le> x" "nat x < length ?ps" "state (?ps ! nat x) = READY"
    "arrival_time (?ps ! nat x) \<le> t" and nx: "x \<notin> set xs" and dx: "distinct xs"
    and rest: "\<forall>idx\<in>set xs. 0 \<le> idx \<and> nat idx < length ?ps \<and> state (?ps ! nat idx) = READY \<and>
        arrival_time (?ps ! nat idx) \<le> t"
    by (simp_all add: queue_entries_ok_def)
  have st: "state (dispatched t p) = RUNNING" "arrival_time (dispatched t p) = arrival_time p" for p
    by (simp_all add: dispatched_def)
  have q1: "queue_entries_ok t ?ps' xs"
    unfolding queue_entries_ok_def
  proof (intro conjI ballI)
    show "distinct xs" by (rule dx)
  next
    fix idx assume m: "idx \<in> set xs"
    with rest have y: "0 \<le> idx" "nat idx < length ?ps" "state (?ps ! nat idx) = READY"
      "arrival_time (?ps ! nat idx) \<le> t"
      by simp_all
    from m nx have "idx \<noteq> x" by auto
    with x(1) y(1) have "nat idx \<noteq> nat x" by simp
    with y show "0 \<le> idx" "nat idx < length ?ps'" "state (?ps' ! nat idx) = READY"
      "arrival_time (?ps' ! nat idx) \<le> t"
      by simp_all
  qed
  have other: "j \<noteq> nat x" if "e < length (cpus s)" "current_process (cpus s ! e) = Some j" for e j
  proof
    assume "j = nat x"
    with that o have "state (?ps ! nat x) = RUNNING" by (auto simp: occupants_ok_def)
    with x show False by simp
  qed
  have o1: "occupants_ok ?ps' ?cs'"
    unfolding occupants_ok_def
  proof (intro conjI allI impI)
    fix e j assume e: "e < length ?cs'" "current_process (?cs' ! e) = Some j"
    show "j < length ?ps'" "state (?ps' ! j) = RUNNING"
    proof -
      have "j < length ?ps' \<and> state (?ps' ! j) = RUNNING"
      proof (cases "e = c")
        case True
        with e c x show ?thesis by (simp add: st)
      next
        case False
        with e have ej: "e < length (cpus s)" "current_process (cpus s ! e) = Some j" by simp_all
        with o have "j < length ?ps" "state (?ps ! j) = RUNNING" by (auto simp: occupants_ok_def)
        with other [OF ej] show ?thesis by simp
      qed
      then show "j < length ?ps'" "state (?ps' ! j) = RUNNING" by simp_all
    qed
  next
    fix e f j assume a: "e < length ?cs'" "f < length ?cs'"
      "current_process (?cs' ! e) = Some j \<and> current_process (?cs' ! f) = Some j"
    show "e = f"
    proof (cases "e = c")
      case True
      with a c have j: "j = nat x" by simp
      show ?thesis
      proof (rule ccontr)
        assume "e \<noteq> f"
        with True a have "f < length (cpus s)" "current_process (cpus s ! f) = Some j" by simp_all
        from other [OF this] j show False by simp
      qed
    next
      case False
      with a have ej: "e < length (cpus s)" "current_process (cpus s ! e) = Some j" by simp_all
      show ?thesis
      proof (cases "f = c")
        case True
        with a c have "j = nat x" by simp
        with other [OF ej] show ?thesis by simp
      next
        case False
        with a have "f < length (cpus s)" "current_process (cpus s ! f) = Some j" by simp_all
        with ej o show ?thesis unfolding occupants_ok_def by blast
      qed
    qed
  qed
  have n1: "not_arrived_ok t ?ps'"
    using n x by (intro not_arrived_ok_update) (simp_all add: st)
  from q' q1 o1 n1 d show ?thesis by (simp add: sched_inv_def)
qed

lemma sched_inv_assign_loop:
  "sched_inv t s \<Longrightarrow>
   sched_inv t (assign_loop t c s) \<and> length (cpus (assign_loop t c s)) = length (cpus s)"
proof (induction t c s rule: assign_loop.induct)
  case (1 t c s)
  show ?case
  proof (cases "c < length (cpus s)")
    case False
    with "1.prems" show ?thesis by (subst (1 2) assign_loop.simps) simp
  next
    case c: True
    show ?thesis
    proof (cases "current_process (cpus s ! c)")
      case (Some i)
      then have step: "assign_loop t c s = assign_loop t (c + 1) s"
        using c by (subst assign_loop.simps) simp
      from "1.IH"(1) [OF c _ "1.prems"] Some show ?thesis by (simp add: step)
    next
      case None
      then have nn: "\<not> current_process (cpus s ! c) \<noteq> None" by simp
      from "1.prems" have ok: "queue_ok (FCFSQ s)"
        and q: "queue_entries_ok t (processes s) (qlist (FCFSQ s))"
        by (simp_all add: sched_inv_def)
      show ?thesis
      proof (cases "qlist (FCFSQ s)")
        case Nil
        then have "assign_loop t c s = s"
          using c None by (subst assign_loop.simps) (simp add: dequeue_Nil)
        with "1.prems" show ?thesis by simp
      next
        case (Cons x xs)
        from dequeue_Cons_eq [OF ok Cons]
        obtain q' where dq: "dequeue (FCFSQ s) = (x, q')" by blast
        from q Cons have x: "0 \<le> x" "state (processes s ! nat x) = READY"
          "arrival_time (processes s ! nat x) \<le> t"
          by (simp_all add: queue_entries_ok_def)
        then have x0: "x \<noteq> - 1"
          and el: "\<not> (state (processes s ! nat x) = COMPLETED \<or> t < arrival_time (processes s ! nat x))"
          by auto
        let ?s' = "s\<lparr>FCFSQ := q',
                     cpus := (cpus s)[c := (cpus s ! c)\<lparr>current_process := Some (nat x)\<rparr>],
                     processes := (processes s)[nat x := dispatched t (processes s ! nat x)]\<rparr>"
        have step: "assign_loop t c s = assign_loop t (c + 1) ?s'"
          using c None dq x0 el by (subst assign_loop.simps) (simp add: dispatched_def)
        have inv': "sched_inv t ?s'"
          using "1.prems" c None dq Cons by (rule sched_inv_dispatch_step)
        from "1.IH"(3) [OF c nn dq [symmetric] x0 el] inv'
        have "sched_inv t (assign_loop t (c + 1) ?s') \<and>
              length (cpus (assign_loop t (c + 1) ?s')) = length (cpus ?s')"
          by (simp add: dispatched_def)
        then show ?thesis by (simp add: step)
      qed
    qed
  qed
qed

lemma sched_inv_update_waiting_times:
  assumes "sched_inv t s"
  shows "sched_inv t (update_waiting_times t' s)"
proof -
  let ?f = "\<lambda>p. if state p = WAITING \<and> arrival_time p \<le> t'
                  then p\<lparr>waiting_time := waiting_time p + 1\<rparr> else p"
  have f: "state (?f p) = state p" "arrival_time (?f p) = arrival_time p" for p
    by simp_all
  have nth: "state (map ?f ps ! i) = state (ps ! i)"
    "arrival_time (map ?f ps ! i) = arrival_time (ps ! i)" if "i < length ps" for ps i
    using that by simp_all
  have "queue_entries_ok t (map ?f (processes s)) xs" if "queue_entries_ok t (processes s) xs" for xs
    using that unfolding queue_entries_ok_def by (auto simp: nth)
  moreover have "occupants_ok (map ?f (processes s)) cs" if "occupants_ok (processes s) cs" for cs
    using that unfolding occupants_ok_def by (auto simp: nth)
  moreover have "not_arrived_ok t (map ?f (processes s))" if "not_arrived_ok t (processes s)"
    using that unfolding not_arrived_ok_def by (auto simp: nth)
  ultimately show ?thesis using assms
    by (simp add: sched_inv_def update_waiting_times_def)
qed

lemma sched_inv_record_timeline: "sched_inv t s \<Longrightarrow> sched_inv t (record_timeline s)"
  by (simp add: sched_inv_def record_timeline_def)

lemma queue_entries_ok_update:
  assumes "queue_entries_ok t ps xs" "int i \<notin> set xs"
  shows "queue_entries_ok t (ps[i := p]) xs"
  unfolding queue_entries_ok_def
proof (intro conjI ballI)
  show "distinct xs" using assms(1) by (simp add: queue_entries_ok_def)
next
  fix idx assume m: "idx \<in> set xs"
  with assms(1) have y: "0 \<le> idx" "nat idx < length ps" "state (ps ! nat idx) = READY"
    "arrival_time (ps ! nat idx) \<le> t"
    by (simp_all add: queue_entries_ok_def)
  from m assms(2) have "idx \<noteq> int i" by auto
  with y(1) have "nat idx \<noteq> i" by auto
  with y show "0 \<le> idx" "nat idx < length (ps[i := p])" "state (ps[i := p] ! nat idx) = READY"
    "arrival_time (ps[i := p] ! nat idx) \<le> t"
    by simp_all
qed

lemma occupant_not_queued:
  assumes "queue_entries_ok t ps xs" "state (ps ! i) = RUNNING"
  shows "int i \<notin> set xs"
proof
  assume "int i \<in> set xs"
  with assms(1) have "state (ps ! nat (int i)) = READY" unfolding queue_entries_ok_def by blast
  with assms(2) show False by simp
qed

lemma occupants_ok_update:
  assumes o: "occupants_ok ps cs" and c: "c < length cs" and occ: "current_process (cs ! c) = Some i"
    and keep: "current_process cpu = Some i \<longrightarrow> state p = RUNNING"
    and only: "current_process cpu = Some i \<or> current_process cpu = None"
  shows "occupants_ok (ps[i := p]) (cs[c := cpu])"
  unfolding occupants_ok_def
proof (intro conjI allI impI)
  fix e j assume e: "e < length (cs[c := cpu])" "current_process (cs[c := cpu] ! e) = Some j"
  have "j < length (ps[i := p]) \<and> state (ps[i := p] ! j) = RUNNING"
  proof (cases "e = c")
    case True
    with e c only have "current_process cpu = Some i" "j = i" by auto
    moreover from o c occ have "i < length ps" by (auto simp: occupants_ok_def)
    ultimately show ?thesis using keep by simp
  next
    case False
    with e have ej: "e < length cs" "current_process (cs ! e) = Some j" by simp_all
    with o have j: "j < length ps" "state (ps ! j) = RUNNING" by (auto simp: occupants_ok_def)
    from o ej c occ False have "j \<noteq> i" unfolding occupants_ok_def by blast
    with j show ?thesis by simp
  qed
  then show "j < length (ps[i := p])" "state (ps[i := p] ! j) = RUNNING" by simp_all
next
  fix e f j assume a: "e < length (cs[c := cpu])" "f < length (cs[c := cpu])"
    "current_process (cs[c := cpu] ! e) = Some j \<and> current_process (cs[c := cpu] ! f) = Some j"
  have old: "current_process (cs ! g) = Some j" if "g < length cs"
    "current_process (cs[c := cpu] ! g) = Some j" for g
  proof (cases "g = c")
    case True
    with that c only occ show ?thesis by auto
  next
    case False
    with that show ?thesis by simp
  qed
  from a old [of e] old [of f] o show "e = f" unfolding occupants_ok_def by simp
qed

lemma occupants_ok_idle_update:
  assumes "occupants_ok ps cs" "current_process cpu = current_process (cs ! c)"
  shows "occupants_ok ps (cs[c := cpu])"
proof -
  have "current_process (cs[c := cpu] ! e) = current_process (cs ! e)" if "e < length cs" for e
    using that assms(2) by (cases "e = c") simp_all
  with assms(1) show ?thesis unfolding occupants_ok_def by simp
qed

lemma sched_inv_execute_cpu:
  assumes inv: "sched_inv t s" and c: "c < length (cpus s)"
  shows "sched_inv t (execute_cpu t' c s) \<and> length (cpus (execute_cpu t' c s)) = length (cpus s)"
proof (cases "current_process (cpus s ! c)")
  case None
  with inv show ?thesis
    by (simp add: execute_cpu_def sched_inv_def occupants_ok_idle_update)
next
  case (Some i)
  let ?ps = "processes s"
  from inv have ok: "queue_ok (FCFSQ s)"
    and q: "queue_entries_ok t ?ps (qlist (FCFSQ s))"
    and o: "occupants_ok ?ps (cpus s)"
    and n: "not_arrived_ok t ?ps"
    and d: "discards s = 0"
    by (simp_all add: sched_inv_def)
  from o c Some have i: "i < length ?ps" "state (?ps ! i) = RUNNING"
    by (auto simp: occupants_ok_def)
  note nq = occupant_not_queued [OF q i(2)]
  note arr = occupant_arrived [OF n i]
  let ?p = "(?ps ! i)\<lparr>remaining_time := remaining_time (?ps ! i) - 1,
                         quantum_used := quantum_used (?ps ! i) + 1\<rparr>"
  let ?cpu = "(cpus s ! c)\<lparr>busy_time := busy_time (cpus s ! c) + 1\<rparr>"
  show ?thesis
  proof (cases "remaining_time ?p \<le> 0")
    case True
    let ?p' = "?p\<lparr>finish_time := t' + 1, state := COMPLETED\<rparr>"
    let ?cpu' = "?cpu\<lparr>current_process := None\<rparr>"
    have eq: "execute_cpu t' c s =
        s\<lparr>processes := ?ps[i := ?p'], cpus := (cpus s)[c := ?cpu'],
          completed_count := completed_count s + 1\<rparr>"
      using True Some by (simp add: execute_cpu_def Let_def)
    have "queue_entries_ok t (?ps[i := ?p']) (qlist (FCFSQ s))"
      using q nq by (rule queue_entries_ok_update)
    moreover have "occupants_ok (?ps[i := ?p']) ((cpus s)[c := ?cpu'])"
      using o c Some by (rule occupants_ok_update) simp_all
    moreover have "not_arrived_ok t (?ps[i := ?p'])"
      using n arr by (intro not_arrived_ok_update) simp_all
    ultimately show ?thesis using ok d by (simp add: eq sched_inv_def)
  next
    case False
    have eq: "execute_cpu t' c s = s\<lparr>processes := ?ps[i := ?p], cpus := (cpus s)[c := ?cpu]\<rparr>"
      using False Some by (simp add: execute_cpu_def Let_def)
    have "queue_entries_ok t (?ps[i := ?p]) (qlist (FCFSQ s))"
      using q nq by (rule queue_entries_ok_update)
    moreover have "occupants_ok (?ps[i := ?p]) ((cpus s)[c := ?cpu])"
      using o c Some by (rule occupants_ok_update) (simp_all add: Some i)
    moreover have "not_arrived_ok t (?ps[i := ?p])"
      using n arr by (intro not_arrived_ok_update) simp_all
    ultimately show ?thesis using ok d by (simp add: eq sched_inv_def)
  qed
qed

lemma sched_inv_execute_processes:
  assumes "sched_inv t s"
  shows "sched_inv t (execute_processes t' s)
         \<and> length (cpus (execute_processes t' s)) = length (cpus s)"
  unfolding execute_processes_def
proof (rule fold_upt_invariant [where P = "sched_inv t"])
  show "sched_inv t s" by fact
  show "length (cpus s) = length (cpus s)" ..
  show "length (cpus s) \<le> length (cpus s)" ..
  fix c s' assume "c < length (cpus s)" "sched_inv t s'" "length (cpus s') = length (cpus s)"
  then show "sched_inv t (execute_cpu t' c s') \<and> length (cpus (execute_cpu t' c s')) = length (cpus s)"
    using sched_inv_execute_cpu [of t s' c t'] by simp
qed

lemma sched_inv_current_time [simp]:
  "sched_inv t (s\<lparr>current_time := t'\<rparr>) = sched_inv t s"
  "sched_inv t (s\<lparr>stderr_log := l\<rparr>) = sched_inv t s"
  by (simp_all add: sched_inv_def)

lemma current_time_tick [simp]: "current_time (tick alg tq s) = current_time s + 1"
  by (simp add: tick_def Let_def split: prod.splits)

lemma sched_inv_tick:
  assumes "sched_inv (current_time s - 1) s"
  shows "sched_inv (current_time s) (tick alg tq s)"
proof -
  define t where "t = current_time s"
  define s1 where "s1 = fst (handle_arrivals alg t s)"
  define arrived where "arrived = snd (handle_arrivals alg t s)"
  define s2 where "s2 = (if alg = RR
                     then handle_rr_quantum_expiry tq (fold enqueue_FCFSQ arrived s1)
                     else s1)"
  define s4 where "s4 = assign_processes_to_idle_cpus t s2"
  define s7 where "s7 = execute_processes t (update_waiting_times t (record_timeline s4))"
  have tk: "tick alg tq s = s7\<lparr>current_time := t + 1\<rparr>"
    by (simp add: tick_def Let_def t_def s1_def arrived_def s2_def s4_def s7_def
          handle_srtf_preemption_def split: prod.splits)
  from assms have i1: "sched_inv t s1"
    and p1: "alg = RR \<Longrightarrow> pending_ok t s1 arrived"
    unfolding s1_def arrived_def t_def by (rule sched_inv_handle_arrivals)+
  have i2: "sched_inv t s2"
  proof (cases "alg = RR")
    case True
    from sched_inv_fold_enqueue [OF i1 p1 [OF True]]
    have "sched_inv t (handle_rr_quantum_expiry tq (fold enqueue_FCFSQ arrived s1))"
      by (rule sched_inv_rr_expiry [THEN conjunct1])
    with True show ?thesis by (simp add: s2_def)
  next
    case False
    with i1 show ?thesis by (simp add: s2_def)
  qed
  then have "sched_inv t s4"
    unfolding s4_def assign_processes_to_idle_cpus_def
    by (rule sched_inv_assign_loop [THEN conjunct1])
  then have "sched_inv t (update_waiting_times t (record_timeline s4))"
    by (intro sched_inv_update_waiting_times sched_inv_record_timeline)
  then have "sched_inv t s7"
    unfolding s7_def by (rule sched_inv_execute_processes [THEN conjunct1])
  then show ?thesis by (simp add: tk t_def)
qed

lemma sched_inv_simulate_loop:
  "sched_inv (current_time s - 1) s \<Longrightarrow>
   sched_inv (current_time (simulate_loop alg tq bruh s) - 1) (simulate_loop alg tq bruh s)"
proof (induction alg tq bruh s rule: simulate_loop.induct)
  case (1 alg tq bruh s)
  from sched_inv_tick [OF "1.prems", of alg tq]
  have t: "sched_inv (current_time (tick alg tq s) - 1) (tick alg tq s)" by simp
  show ?case
  proof (cases "completed_count s < int (length (processes s))")
    case False
    with "1.prems" show ?thesis by (subst (1 2) simulate_loop.simps) simp
  next
    case True
    show ?thesis
    proof (cases "current_time (tick alg tq s) > timeline_capacity (tick alg tq s) * 5
            \<and> completed_count (tick alg tq s) < int (length (processes s))")
      case abort: True
      with True t show ?thesis by (subst (1 2) simulate_loop.simps) (simp add: Let_def)
    next
      case no_abort: False
      show ?thesis
      proof (cases "bruh + 1 > 100")
        case True
        with \<open>completed_count s < int (length (processes s))\<close> no_abort t show ?thesis
          by (subst (1 2) simulate_loop.simps) (simp add: Let_def)
      next
        case False
        from "1.IH" [OF \<open>completed_count s < int (length (processes s))\<close> refl no_abort False t]
        show ?thesis using \<open>completed_count s < int (length (processes s))\<close> no_abort False
          by (subst (1 2) simulate_loop.simps) (auto simp: Let_def)
      qed
    qed
  qed
qed

lemma sched_inv_initial: "sched_inv (- 1) (initial_sim (load_processes recs) cpu_count)"
  by (simp add: sched_inv_def initial_sim_def queue_ok_init qlist_init queue_entries_ok_def
        occupants_ok_def not_arrived_ok_def load_processes_def new_process_def split: prod.splits)

lemma current_time_funpow_tick:
  "current_time ((tick alg tq ^^ n) s) = current_time s + int n"
  by (induction n) simp_all

lemma sched_inv_funpow_tick:
  "sched_inv (current_time s - 1) s \<Longrightarrow>
   sched_inv (current_time s + int n - 1) ((tick alg tq ^^ n) s)"
proof (induction n)
  case 0
  then show ?case by simp
next
  case (Suc n)
  have ct: "current_time ((tick alg tq ^^ n) s) = current_time s + int n"
    by (rule current_time_funpow_tick)
  from Suc.IH [OF Suc.prems]
  have "sched_inv (current_time ((tick alg tq ^^ n) s) - 1) ((tick alg tq ^^ n) s)"
    by (simp add: ct)
  from sched_inv_tick [OF this, of alg tq] show ?case
    by (simp add: ct algebra_simps)
qed

section \<open>Quantum expiry refines its specification\<close>

lemma qlist_enqueue_push_back:
  "queue_ok q \<Longrightarrow> qlist (fst (enqueue q x)) = push_back (qlist q) x"
  by (simp add: qlist_enqueue push_back_def queue_ok_def)

lemma expiry_refines:
  assumes "length (cpus s) = n" "c \<le> n" "queue_ok (FCFSQ s)"
    and "\<forall>e<n. c \<le> e \<longrightarrow> (\<forall>j. current_process (cpus s ! e) = Some j \<longrightarrow>
            j < length (processes s) \<and> state (processes s ! j) = RUNNING)"
    and "\<forall>e<n. \<forall>f<n. c \<le> e \<and> c \<le> f \<longrightarrow>
            (\<forall>j. current_process (cpus s ! e) = Some j \<and> current_process (cpus s ! f) = Some j
                 \<longrightarrow> e = f)"
  shows "case rr_expiry_spec Q (drop c (map current_process (cpus s))) (qlist (FCFSQ s)) (processes s) of
           (occ, queue, ps) \<Rightarrow>
             map current_process (cpus (fold (expire_cpu Q) [c..<n] s))
               = take c (map current_process (cpus s)) @ occ
             \<and> qlist (FCFSQ (fold (expire_cpu Q) [c..<n] s)) = queue
             \<and> processes (fold (expire_cpu Q) [c..<n] s) = ps"
  using assms
proof (induction "n - c" arbitrary: c s)
  case 0
  then show ?case by simp
next
  case (Suc d)
  let ?occ = "map current_process (cpus s)"
  from Suc.hyps(2) have c: "c < n" by simp
  with Suc.prems(1) have cl: "c < length (cpus s)" by simp
  have up: "[c..<n] = c # [Suc c..<n]" using c by (rule upt_conv_Cons)
  have dr: "drop c ?occ = current_process (cpus s ! c) # drop (Suc c) ?occ"
    using cl by (simp flip: Cons_nth_drop_Suc)
  have tk: "take (Suc c) ?occ = take c ?occ @ [current_process (cpus s ! c)]"
    using cl by (simp add: take_Suc_conv_app_nth)
  have d: "d = n - Suc c" using Suc.hyps(2) by simp
  have later: "\<forall>e<n. Suc c \<le> e \<longrightarrow> (\<forall>j. current_process (cpus s ! e) = Some j \<longrightarrow>
            j < length (processes s) \<and> state (processes s ! j) = RUNNING)"
    using Suc.prems(4) by simp
  have later_d: "\<forall>e<n. \<forall>f<n. Suc c \<le> e \<and> Suc c \<le> f \<longrightarrow>
            (\<forall>j. current_process (cpus s ! e) = Some j \<and> current_process (cpus s ! f) = Some j
                 \<longrightarrow> e = f)"
    using Suc.prems(5) by simp
  have same: "case rr_expiry_spec Q (drop (Suc c) ?occ) (qlist (FCFSQ s)) (processes s) of
           (occ, queue, ps) \<Rightarrow>
             map current_process (cpus (fold (expire_cpu Q) [Suc c..<n] s)) = take (Suc c) ?occ @ occ
             \<and> qlist (FCFSQ (fold (expire_cpu Q) [Suc c..<n] s)) = queue
             \<and> processes (fold (expire_cpu Q) [Suc c..<n] s) = ps"
    using d Suc.prems(1) c Suc.prems(3) later later_d
    by (intro Suc.hyps(1)) simp_all
  show ?case
  proof (cases "current_process (cpus s ! c)")
    case None
    then have "expire_cpu Q c s = s" by (simp add: expire_cpu_def)
    with same None show ?thesis
      by (simp add: up dr tk split: prod.splits)
  next
    case (Some i)
    with Suc.prems(4) c have i: "i < length (processes s)" "state (processes s ! i) = RUNNING"
      by auto
    show ?thesis
    proof (cases "quantum_used (processes s ! i) \<ge> Q \<and> remaining_time (processes s ! i) > 0")
      case False
      with Some have "expire_cpu Q c s = s" by (auto simp: expire_cpu_def)
      with same Some False show ?thesis
        by (simp add: up dr tk split: prod.splits)
    next
      case True
      let ?ps' = "(processes s)[i := (processes s ! i)\<lparr>quantum_used := 0, state := READY\<rparr>]"
      let ?cs' = "(cpus s)[c := (cpus s ! c)\<lparr>current_process := None\<rparr>]"
      define s1 where "s1 = expire_cpu Q c s"
      have s1: "processes s1 = ?ps'" "cpus s1 = ?cs'"
        "FCFSQ s1 = fst (enqueue (FCFSQ s) (int i))"
        using True Some i by (simp_all add: s1_def expire_cpu_def Let_def)
      have ql: "qlist (FCFSQ s1) = push_back (qlist (FCFSQ s)) (int i)"
        using Suc.prems(3) by (simp add: s1 qlist_enqueue_push_back)
      have ok1: "queue_ok (FCFSQ s1)"
        using Suc.prems(3) by (simp add: s1 queue_ok_enqueue)
      have others: "j \<noteq> i" if "e < n" "Suc c \<le> e" "current_process (cpus s ! e) = Some j" for e j
      proof
        assume "j = i"
        with that Some c Suc.prems(5) have "e = c" by auto
        with that show False by simp
      qed
      have l1: "\<forall>e<n. Suc c \<le> e \<longrightarrow> (\<forall>j. current_process (cpus s1 ! e) = Some j \<longrightarrow>
            j < length (processes s1) \<and> state (processes s1 ! j) = RUNNING)"
      proof (intro allI impI)
        fix e j assume e: "e < n" "Suc c \<le> e" "current_process (cpus s1 ! e) = Some j"
        then have ej: "current_process (cpus s ! e) = Some j" by (simp add: s1)
        with later e have "j < length (processes s)" "state (processes s ! j) = RUNNING" by auto
        with others [OF e(1,2) ej]
        show "j < length (processes s1) \<and> state (processes s1 ! j) = RUNNING"
          by (simp add: s1)
      qed
      have d1: "\<forall>e<n. \<forall>f<n. Suc c \<le> e \<and> Suc c \<le> f \<longrightarrow>
            (\<forall>j. current_process (cpus s1 ! e) = Some j \<and> current_process (cpus s1 ! f) = Some j
                 \<longrightarrow> e = f)"
        using later_d by (auto simp: s1)
      have ih: "case rr_expiry_spec Q (drop (Suc c) (map current_process (cpus s1))) (qlist (FCFSQ s1)) (processes s1) of
           (occ, queue, ps) \<Rightarrow>
             map current_process (cpus (fold (expire_cpu Q) [Suc c..<n] s1))
               = take (Suc c) (map current_process (cpus s1)) @ occ
             \<and> qlist (FCFSQ (fold (expire_cpu Q) [Suc c..<n] s1)) = queue
             \<and> processes (fold (expire_cpu Q) [Suc c..<n] s1) = ps"
        using d Suc.prems(1) c ok1 l1 d1
        by (intro Suc.hyps(1)) (simp_all add: s1)
      have "drop (Suc c) (map current_process (cpus s1)) = drop (Suc c) ?occ"
        by (simp add: s1 drop_map flip: map_update)
      moreover have "take (Suc c) (map current_process (cpus s1)) = take c ?occ @ [None]"
        using cl by (simp add: s1 take_Suc_conv_app_nth take_map flip: map_update)
      ultimately show ?thesis using ih [unfolded ql s1(1)] True Some
        by (simp add: up dr flip: s1_def split: prod.splits)
    qed
  qed
qed

lemma fold_upt_invariant_idx:
  assumes "P 0 s" and step: "\<And>c s. c < n \<Longrightarrow> P c s \<Longrightarrow> P (Suc c) (f c s)"
  shows "k \<le> n \<Longrightarrow> P k (fold f [0..<k] s)"
proof (induction k)
  case 0
  with assms(1) show ?case by simp
next
  case (Suc k)
  then have "P k (fold f [0..<k] s)" "k < n" by simp_all
  from step [OF this(2,1)] show ?case by simp
qed

lemma execute_cpu_other:
  assumes "e < length (cpus s)" "current_process (cpus s ! e) \<noteq> Some i"
  shows "processes (execute_cpu t e s) ! i = processes s ! i"
    and "c \<noteq> e \<Longrightarrow> cpus (execute_cpu t e s) ! c = cpus s ! c"
    and "length (processes (execute_cpu t e s)) = length (processes s)"
  using assms
  by (auto simp: execute_cpu_def Let_def split: option.splits)

lemma execute_cpu_last_unit:
  assumes "c < length (cpus s)" "current_process (cpus s ! c) = Some i" "i < length (processes s)"
    "remaining_time (processes s ! i) \<le> 1"
  shows "state (processes (execute_cpu t c s) ! i) = COMPLETED"
    and "finish_time (processes (execute_cpu t c s) ! i) = t + 1"
    and "current_process (cpus (execute_cpu t c s) ! c) = None"
    and "length (processes (execute_cpu t c s)) = length (processes s)"
  using assms by (simp_all add: execute_cpu_def Let_def)

lemma execute_processes_last_unit:
  assumes inv: "sched_inv t s" and c: "c < length (cpus s)"
    and occ: "current_process (cpus s ! c) = Some i"
    and last: "remaining_time (processes s ! i) \<le> 1"
  shows "state (processes (execute_processes t' s) ! i) = COMPLETED"
    and "finish_time (processes (execute_processes t' s) ! i) = t' + 1"
    and "current_process (cpus (execute_processes t' s) ! c) = None"
    and "i < length (processes (execute_processes t' s))"
proof -
  define n where "n = length (cpus s)"
  define P where "P = (\<lambda>k s'. sched_inv t s' \<and> length (cpus s') = n \<and> i < length (processes s') \<and>
      (if c < k
       then state (processes s' ! i) = COMPLETED \<and> finish_time (processes s' ! i) = t' + 1 \<and>
            current_process (cpus s' ! c) = None
       else current_process (cpus s' ! c) = Some i \<and> remaining_time (processes s' ! i) \<le> 1))"
  from inv c occ have i: "i < length (processes s)"
    by (auto simp: sched_inv_def occupants_ok_def)
  have P0: "P 0 s" using inv occ last i by (simp add: P_def n_def)
  have step: "P (Suc e) (execute_cpu t' e s')" if e: "e < n" and P: "P e s'" for e s'
  proof -
    from P have inv': "sched_inv t s'" and len: "length (cpus s') = n"
      and il: "i < length (processes s')"
      by (simp_all add: P_def)
    from inv' have o: "occupants_ok (processes s') (cpus s')" by (simp add: sched_inv_def)
    from sched_inv_execute_cpu [OF inv', where c = e and t' = t'] e len
    have inv'': "sched_inv t (execute_cpu t' e s')" and len'': "length (cpus (execute_cpu t' e s')) = n"
      by simp_all
    show ?thesis
    proof (cases "e = c")
      case True
      with P have "current_process (cpus s' ! c) = Some i" "remaining_time (processes s' ! i) \<le> 1"
        by (simp_all add: P_def)
      with execute_cpu_last_unit [where c = c and s = s' and i = i and t = t'] c len il True inv'' len''
      show ?thesis
        by (simp add: P_def n_def)
    next
      case False
      have ne: "current_process (cpus s' ! e) \<noteq> Some i"
      proof
        assume a: "current_process (cpus s' ! e) = Some i"
        show False
        proof (cases "c < e")
          case True
          with P have "state (processes s' ! i) = COMPLETED" by (simp add: P_def)
          moreover from o a e len have "state (processes s' ! i) = RUNNING"
            by (auto simp: occupants_ok_def)
          ultimately show False by simp
        next
          case False
          with P have "current_process (cpus s' ! c) = Some i" by (simp add: P_def)
          with o a e c len have "e = c" unfolding occupants_ok_def n_def by metis
          with \<open>e \<noteq> c\<close> show False by simp
        qed
      qed
      from e len have el: "e < length (cpus s')" by simp
      note fr = execute_cpu_other [OF el ne, where t = t']
      from False have "c < Suc e \<longleftrightarrow> c < e" by auto
      with P fr False inv'' len'' show ?thesis by (simp add: P_def)
    qed
  qed
  have "P n (fold (execute_cpu t') [0..<n] s)"
  proof (rule fold_upt_invariant_idx [where P = P and n = n])
    show "P 0 s" by (rule P0)
    show "n \<le> n" ..
    show "\<And>e s'. e < n \<Longrightarrow> P e s' \<Longrightarrow> P (Suc e) (execute_cpu t' e s')" by (rule step)
  qed
  with c show "state (processes (execute_processes t' s) ! i) = COMPLETED"
    and "finish_time (processes (execute_processes t' s) ! i) = t' + 1"
    and "current_process (cpus (execute_processes t' s) ! c) = None"
    and "i < length (processes (execute_processes t' s))"
    by (simp_all add: P_def execute_processes_def n_def)
qed

lemma processes_fold_enqueue [simp]:
  "processes (fold enqueue_FCFSQ xs s) = processes s"
  by (induction xs arbitrary: s) simp_all

lemma handle_arrivals_RR:
  "handle_arrivals RR t s =
     (s\<lparr>processes := marked t (processes s)\<rparr>,
      map int (arrivals_upto t (processes s) (length (processes s))))"
proof -
  have "fold (admit_arrival RR) xs s' = s'" for xs s'
    by (induction xs) (simp_all add: admit_arrival_def)
  then show ?thesis by (simp add: handle_arrivals_eq)
qed

lemma expire_cpu_other:
  assumes "current_process (cpus s ! e) \<noteq> Some i"
  shows "processes (expire_cpu Q e s) ! i = processes s ! i"
    and "length (processes (expire_cpu Q e s)) = length (processes s)"
  using assms by (auto simp: expire_cpu_def Let_def split: option.splits)

lemma completed_after_rr_expiry:
  assumes inv: "sched_inv t s" and i: "i < length (processes s)"
    and fin: "state (processes s ! i) = COMPLETED"
  shows "state (processes (handle_rr_quantum_expiry Q s) ! i) = COMPLETED"
    and "i < length (processes (handle_rr_quantum_expiry Q s))"
proof -
  define P where "P = (\<lambda>s'. sched_inv t s' \<and> i < length (processes s') \<and>
      state (processes s' ! i) = COMPLETED)"
  have "P (fold (expire_cpu Q) [0..<length (cpus s)] s) \<and>
        length (cpus (fold (expire_cpu Q) [0..<length (cpus s)] s)) = length (cpus s)"
  proof (rule fold_upt_invariant [where P = P])
    show "P s" using inv i fin by (simp add: P_def)
    show "length (cpus s) = length (cpus s)" ..
    show "length (cpus s) \<le> length (cpus s)" ..
    fix e s' assume e: "e < length (cpus s)" and P: "P s'" and len: "length (cpus s') = length (cpus s)"
    from P have inv': "sched_inv t s'" and il: "i < length (processes s')"
      and st: "state (processes s' ! i) = COMPLETED"
      by (simp_all add: P_def)
    have ne: "current_process (cpus s' ! e) \<noteq> Some i"
    proof
      assume "current_process (cpus s' ! e) = Some i"
      with inv' e len have "state (processes s' ! i) = RUNNING"
        by (auto simp: sched_inv_def occupants_ok_def)
      with st show False by simp
    qed
    from sched_inv_expire_cpu [OF inv', of e Q] e len expire_cpu_other [OF ne, of Q] il st
    show "P (expire_cpu Q e s') \<and> length (cpus (expire_cpu Q e s')) = length (cpus s)"
      by (simp add: P_def)
  qed
  then show "state (processes (handle_rr_quantum_expiry Q s) ! i) = COMPLETED"
    and "i < length (processes (handle_rr_quantum_expiry Q s))"
    by (simp_all add: P_def handle_rr_quantum_expiry_def)
qed

lemma completed_not_scheduled:
  assumes "sched_inv t s" "state (processes s ! i) = COMPLETED"
  shows "int i \<notin> set (qlist (FCFSQ s))"
    and "\<forall>d<length (cpus s). current_process (cpus s ! d) \<noteq> Some i"
proof -
  show "int i \<notin> set (qlist (FCFSQ s))"
  proof
    assume "int i \<in> set (qlist (FCFSQ s))"
    with assms(1) have "state (processes s ! nat (int i)) = READY"
      unfolding sched_inv_def queue_entries_ok_def by blast
    with assms(2) show False by simp
  qed
  show "\<forall>d<length (cpus s). current_process (cpus s ! d) \<noteq> Some i"
  proof (intro allI impI notI)
    fix d assume "d < length (cpus s)" "current_process (cpus s ! d) = Some i"
    with assms(1) have "state (processes s ! i) = RUNNING"
      by (auto simp: sched_inv_def occupants_ok_def)
    with assms(2) show False by simp
  qed
qed

lemma completed_at_expiry_is_retired:
  assumes inv: "sched_inv t s" and c: "c < length (cpus s)"
    and occ: "current_process (cpus s ! c) = Some i"
    and last: "remaining_time (processes s ! i) \<le> 1"
  shows "state (processes (execute_processes t s) ! i) = COMPLETED"
    and "finish_time (processes (execute_processes t s) ! i) = t + 1"
    and "current_process (cpus (execute_processes t s) ! c) = None"
    and "state (processes (rr_tick_start Q (t + 1) (execute_processes t s)) ! i) = COMPLETED"
    and "int i \<notin> set (qlist (FCFSQ (rr_tick_start Q (t + 1) (execute_processes t s))))"
    and "\<forall>d<length (cpus (rr_tick_start Q (t + 1) (execute_processes t s))).
           current_process (cpus (rr_tick_start Q (t + 1) (execute_processes t s)) ! d) \<noteq> Some i"
proof -
  define se where "se = execute_processes t s"
  note ex = execute_processes_last_unit [OF inv c occ last, of t, folded se_def]
  from ex show "state (processes se ! i) = COMPLETED" "finish_time (processes se ! i) = t + 1"
    "current_process (cpus se ! c) = None"
    by simp_all
  from sched_inv_execute_processes [OF inv, of t] have inv_e: "sched_inv (t + 1 - 1) se"
    by (simp add: se_def)
  then have na: "not_arrived_ok t (processes se)" by (simp add: sched_inv_def)
  have "arrival_time (processes se ! i) \<noteq> t + 1"
  proof
    assume "arrival_time (processes se ! i) = t + 1"
    with na ex(4) have "state (processes se ! i) = WAITING" by (simp add: not_arrived_ok_def)
    with ex(1) show False by simp
  qed
  with ex(4) have same: "marked (t + 1) (processes se) ! i = processes se ! i"
    by (intro marked_same)
  define s1 where "s1 = fst (handle_arrivals RR (t + 1) se)"
  define arrived where "arrived = snd (handle_arrivals RR (t + 1) se)"
  have inv1: "sched_inv (t + 1) s1" and p1: "pending_ok (t + 1) s1 arrived"
    using sched_inv_handle_arrivals(1,2) [OF inv_e, of RR] by (simp_all add: s1_def arrived_def)
  define s2 where "s2 = fold enqueue_FCFSQ arrived s1"
  have inv2: "sched_inv (t + 1) s2"
    unfolding s2_def using inv1 p1 by (rule sched_inv_fold_enqueue)
  have st2: "state (processes s2 ! i) = COMPLETED" "i < length (processes s2)"
    using same ex(1,4) by (simp_all add: s2_def s1_def handle_arrivals_RR)
  have eq: "rr_tick_start Q (t + 1) se = handle_rr_quantum_expiry Q s2"
    by (simp add: rr_tick_start_def s2_def s1_def arrived_def)
  from completed_after_rr_expiry [OF inv2 st2(2,1), of Q]
  show st3: "state (processes (rr_tick_start Q (t + 1) se) ! i) = COMPLETED"
    by (simp add: eq)
  from sched_inv_rr_expiry [OF inv2, of Q]
  have inv3: "sched_inv (t + 1) (rr_tick_start Q (t + 1) se)" by (simp add: eq)
  from completed_not_scheduled [OF inv3 st3]
  show "int i \<notin> set (qlist (FCFSQ (rr_tick_start Q (t + 1) se)))"
    and "\<forall>d<length (cpus (rr_tick_start Q (t + 1) se)).
           current_process (cpus (rr_tick_start Q (t + 1) se) ! d) \<noteq> Some i"
    by simp_all
qed

lemma sched_inv_mono:
  assumes "sched_inv t s" "t \<le> t'"
  shows "sched_inv t' s"
proof -
  from assms have "queue_entries_ok t' (processes s) (qlist (FCFSQ s))"
    unfolding sched_inv_def queue_entries_ok_def by fastforce
  moreover from assms have "not_arrived_ok t' (processes s)"
    unfolding sched_inv_def not_arrived_ok_def by fastforce
  ultimately show ?thesis using assms(1) by (simp add: sched_inv_def)
qed

lemma rr_expiry_abs:
  assumes "queue_ok (FCFSQ s)" "occupants_ok (processes s) (cpus s)"
  shows "abs_sim (handle_rr_quantum_expiry Q s) =
         rr_expiry_spec Q (map current_process (cpus s)) (qlist (FCFSQ s)) (processes s)"
proof -
  from assms(2)
  have a: "\<forall>e<length (cpus s). 0 \<le> e \<longrightarrow> (\<forall>j. current_process (cpus s ! e) = Some j \<longrightarrow>
            j < length (processes s) \<and> state (processes s ! j) = RUNNING)"
    and b: "\<forall>e<length (cpus s). \<forall>f<length (cpus s). 0 \<le> e \<and> 0 \<le> f \<longrightarrow>
            (\<forall>j. current_process (cpus s ! e) = Some j \<and> current_process (cpus s ! f) = Some j
                 \<longrightarrow> e = f)"
    unfolding occupants_ok_def by simp_all
  from expiry_refines [OF refl _ assms(1) a b, of Q] show ?thesis
    by (simp add: abs_sim_def handle_rr_quantum_expiry_def split: prod.splits)
qed

lemma tick_before_dispatch:
  "tick alg tq s =
     (execute_processes (current_time s)
        (update_waiting_times (current_time s)
           (record_timeline
              (assign_processes_to_idle_cpus (current_time s) (before_dispatch alg tq s)))))
     \<lparr>current_time := current_time s + 1\<rparr>"
  by (simp add: tick_def before_dispatch_def Let_def split: prod.splits)

lemma sched_inv_before_dispatch:
  assumes "sched_inv (current_time s - 1) s"
  shows "sched_inv (current_time s) (before_dispatch alg tq s)"
proof -
  define t where "t = current_time s"
  define s1 where "s1 = fst (handle_arrivals alg t s)"
  define arrived where "arrived = snd (handle_arrivals alg t s)"
  have bd: "before_dispatch alg tq s =
      (if alg = RR then handle_rr_quantum_expiry tq (fold enqueue_FCFSQ arrived s1) else s1)"
    by (simp add: before_dispatch_def Let_def t_def s1_def arrived_def
          handle_srtf_preemption_def split: prod.splits)
  from assms have i1: "sched_inv t s1"
    and p1: "alg = RR \<Longrightarrow> pending_ok t s1 arrived"
    unfolding s1_def arrived_def t_def by (rule sched_inv_handle_arrivals)+
  show ?thesis
  proof (cases "alg = RR")
    case True
    from sched_inv_fold_enqueue [OF i1 p1 [OF True]]
    have "sched_inv t (handle_rr_quantum_expiry tq (fold enqueue_FCFSQ arrived s1))"
      by (rule sched_inv_rr_expiry [THEN conjunct1])
    with True show ?thesis unfolding bd by (simp add: t_def)
  next
    case False
    with i1 show ?thesis unfolding bd by (simp add: t_def)
  qed
qed

lemma sched_inv_funpow_before_dispatch:
  assumes "sched_inv (current_time s - 1) s"
  shows "sched_inv (current_time s + int n) (before_dispatch alg tq ((tick alg tq ^^ n) s))"
proof -
  from sched_inv_funpow_tick [OF assms, of n alg tq]
  have "sched_inv (current_time ((tick alg tq ^^ n) s) - 1) ((tick alg tq ^^ n) s)"
    by (simp add: current_time_funpow_tick)
  from sched_inv_before_dispatch [OF this, of alg tq] show ?thesis
    by (simp add: current_time_funpow_tick)
qed

lemma expiry_reports_refine:
  assumes "length (cpus s) = n" "c \<le> n" "queue_ok (FCFSQ s)"
    and "\<forall>e<n. c \<le> e \<longrightarrow> (\<forall>j. current_process (cpus s ! e) = Some j \<longrightarrow>
            j < length (processes s) \<and> state (processes s ! j) = RUNNING)"
    and "\<forall>e<n. \<forall>f<n. c \<le> e \<and> c \<le> f \<longrightarrow>
            (\<forall>j. current_process (cpus s ! e) = Some j \<and> current_process (cpus s ! f) = Some j
                 \<longrightarrow> e = f)"
  shows "stderr_log (fold (expire_cpu Q) [c..<n] s) =
           stderr_log s @
           rr_expiry_reports Q (drop c (map current_process (cpus s))) (qlist (FCFSQ s)) (processes s)"
  using assms
proof (induction "n - c" arbitrary: c s)
  case 0
  then show ?case by simp
next
  case (Suc d)
  let ?occ = "map current_process (cpus s)"
  from Suc.hyps(2) have c: "c < n" by simp
  with Suc.prems(1) have cl: "c < length (cpus s)" by simp
  have up: "[c..<n] = c # [Suc c..<n]" using c by (rule upt_conv_Cons)
  have dr: "drop c ?occ = current_process (cpus s ! c) # drop (Suc c) ?occ"
    using cl by (simp flip: Cons_nth_drop_Suc)
  have d: "d = n - Suc c" using Suc.hyps(2) by simp
  have later: "\<forall>e<n. Suc c \<le> e \<longrightarrow> (\<forall>j. current_process (cpus s ! e) = Some j \<longrightarrow>
            j < length (processes s) \<and> state (processes s ! j) = RUNNING)"
    using Suc.prems(4) by simp
  have later_d: "\<forall>e<n. \<forall>f<n. Suc c \<le> e \<and> Suc c \<le> f \<longrightarrow>
            (\<forall>j. current_process (cpus s ! e) = Some j \<and> current_process (cpus s ! f) = Some j
                 \<longrightarrow> e = f)"
    using Suc.prems(5) by simp
  have same: "stderr_log (fold (expire_cpu Q) [Suc c..<n] s) =
           stderr_log s @ rr_expiry_reports Q (drop (Suc c) ?occ) (qlist (FCFSQ s)) (processes s)"
    using d Suc.prems(1) c Suc.prems(3) later later_d
    by (intro Suc.hyps(1)) simp_all
  show ?case
  proof (cases "current_process (cpus s ! c)")
    case None
    then have "expire_cpu Q c s = s" by (simp add: expire_cpu_def)
    with same None show ?thesis
      by (simp add: up dr)
  next
    case (Some i)
    with Suc.prems(4) c have i: "i < length (processes s)" "state (processes s ! i) = RUNNING"
      by auto
    show ?thesis
    proof (cases "quantum_used (processes s ! i) \<ge> Q \<and> remaining_time (processes s ! i) > 0")
      case False
      with Some have e: "expire_cpu Q c s = s" by (auto simp: expire_cpu_def)
      from False
      have r: "rr_expiry_reports Q (Some i # drop (Suc c) ?occ) (qlist (FCFSQ s)) (processes s) =
               rr_expiry_reports Q (drop (Suc c) ?occ) (qlist (FCFSQ s)) (processes s)"
        by auto
      show ?thesis unfolding up dr Some r by (simp add: e same)
    next
      case True
      let ?ps' = "(processes s)[i := (processes s ! i)\<lparr>quantum_used := 0, state := READY\<rparr>]"
      let ?cs' = "(cpus s)[c := (cpus s ! c)\<lparr>current_process := None\<rparr>]"
      define s1 where "s1 = expire_cpu Q c s"
      have s1: "processes s1 = ?ps'" "cpus s1 = ?cs'"
        "FCFSQ s1 = fst (enqueue (FCFSQ s) (int i))"
        using True Some i by (simp_all add: s1_def expire_cpu_def Let_def)
      have nonneg: "0 \<le> qsize (FCFSQ s)" using Suc.prems(3) by (simp add: queue_ok_def)
      have log1: "stderr_log s1 = stderr_log s @
          (if MAX_PROCESSES \<le> int (length (qlist (FCFSQ s))) then [overflow_msg] else [])"
        using True Some i nonneg
        by (simp add: s1_def expire_cpu_def Let_def enqueue_FCFSQ_def enqueue_def
              split: prod.splits)
      have ql: "qlist (FCFSQ s1) = push_back (qlist (FCFSQ s)) (int i)"
        using Suc.prems(3) by (simp add: s1 qlist_enqueue_push_back)
      have ok1: "queue_ok (FCFSQ s1)"
        using Suc.prems(3) by (simp add: s1 queue_ok_enqueue)
      have others: "j \<noteq> i" if "e < n" "Suc c \<le> e" "current_process (cpus s ! e) = Some j" for e j
      proof
        assume "j = i"
        with that Some c Suc.prems(5) have "e = c" by auto
        with that show False by simp
      qed
      have l1: "\<forall>e<n. Suc c \<le> e \<longrightarrow> (\<forall>j. current_process (cpus s1 ! e) = Some j \<longrightarrow>
            j < length (processes s1) \<and> state (processes s1 ! j) = RUNNING)"
      proof (intro allI impI)
        fix e j assume e: "e < n" "Suc c \<le> e" "current_process (cpus s1 ! e) = Some j"
        then have ej: "current_process (cpus s ! e) = Some j" by (simp add: s1)
        with later e have "j < length (processes s)" "state (processes s ! j) = RUNNING" by auto
        with others [OF e(1,2) ej]
        show "j < length (processes s1) \<and> state (processes s1 ! j) = RUNNING"
          by (simp add: s1)
      qed
      have d1: "\<forall>e<n. \<forall>f<n. Suc c \<le> e \<and> Suc c \<le> f \<longrightarrow>
            (\<forall>j. current_process (cpus s1 ! e) = Some j \<and> current_process (cpus s1 ! f) = Some j
                 \<longrightarrow> e = f)"
        using later_d by (auto simp: s1)
      have ih: "stderr_log (fold (expire_cpu Q) [Suc c..<n] s1) =
           stderr_log s1 @
           rr_expiry_reports Q (drop (Suc c) (map current_process (cpus s1))) (qlist (FCFSQ s1)) (processes s1)"
        using d Suc.prems(1) c ok1 l1 d1
        by (intro Suc.hyps(1)) (simp_all add: s1)
      have "drop (Suc c) (map current_process (cpus s1)) = drop (Suc c) ?occ"
        by (simp add: s1 drop_map flip: map_update)
      then show ?thesis using ih [unfolded ql s1(1) log1] True Some
        by (simp add: up dr flip: s1_def)
    qed
  qed
qed

lemma rr_expiry_reports_log:
  assumes "queue_ok (FCFSQ s)" "occupants_ok (processes s) (cpus s)"
  shows "stderr_log (handle_rr_quantum_expiry Q s) =
         stderr_log s @
         rr_expiry_reports Q (map current_process (cpus s)) (qlist (FCFSQ s)) (processes s)"
proof -
  from assms(2)
  have a: "\<forall>e<length (cpus s). 0 \<le> e \<longrightarrow> (\<forall>j. current_process (cpus s ! e) = Some j \<longrightarrow>
            j < length (processes s) \<and> state (processes s ! j) = RUNNING)"
    and b: "\<forall>e<length (cpus s). \<forall>f<length (cpus s). 0 \<le> e \<and> 0 \<le> f \<longrightarrow>
            (\<forall>j. current_process (cpus s ! e) = Some j \<and> current_process (cpus s ! f) = Some j
                 \<longrightarrow> e = f)"
    unfolding occupants_ok_def by simp_all
  from expiry_reports_refine [OF refl _ assms(1) a b, of Q] show ?thesis
    by (simp add: handle_rr_quantum_expiry_def)
qed

lemma tick_RR:
  "tick RR Q s =
     (execute_processes (current_time s)
        (update_waiting_times (current_time s)
           (record_timeline
              (assign_processes_to_idle_cpus (current_time s)
                 (handle_rr_quantum_expiry Q (rr_admitted s))))))
     \<lparr>current_time := current_time s + 1\<rparr>"
  by (simp add: tick_def rr_admitted_def Let_def split: prod.splits)

lemma tick_not_RR:
  "alg \<noteq> RR \<Longrightarrow>
   tick alg Q s =
     (execute_processes (current_time s)
        (update_waiting_times (current_time s)
           (record_timeline
              (assign_processes_to_idle_cpus (current_time s)
                 (fst (handle_arrivals alg (current_time s) s))))))
     \<lparr>current_time := current_time s + 1\<rparr>"
  by (simp add: tick_def Let_def handle_srtf_preemption_def split: prod.splits)

lemma sched_inv_rr_admitted:
  assumes "sched_inv (current_time s - 1) s"
  shows "sched_inv (current_time s) (rr_admitted s)"
proof -
  define t where "t = current_time s"
  define s1 where "s1 = fst (handle_arrivals RR t s)"
  define arrived where "arrived = snd (handle_arrivals RR t s)"
  have ra: "rr_admitted s = fold enqueue_FCFSQ arrived s1"
    by (simp add: rr_admitted_def t_def s1_def arrived_def split: prod.splits)
  from assms have i1: "sched_inv t s1"
    and p1: "RR = RR \<Longrightarrow> pending_ok t s1 arrived"
    unfolding s1_def arrived_def t_def by (rule sched_inv_handle_arrivals)+
  from sched_inv_fold_enqueue [OF i1 p1 [OF refl]] show ?thesis
    unfolding ra t_def .
qed

lemma sched_inv_funpow_rr_admitted:
  "sched_inv (int n)
     (rr_admitted ((tick RR Q ^^ n) (initial_sim (load_processes recs) cpu_count)))"
proof -
  let ?s0 = "initial_sim (load_processes recs) cpu_count"
  have t0: "current_time ?s0 = 0" by (simp add: initial_sim_def)
  have "sched_inv (current_time ?s0 - 1) ?s0"
    using sched_inv_initial [of recs cpu_count] by (simp add: t0)
  from sched_inv_funpow_tick [OF this, of n RR Q]
  have "sched_inv (current_time ((tick RR Q ^^ n) ?s0) - 1) ((tick RR Q ^^ n) ?s0)"
    by (simp add: current_time_funpow_tick)
  from sched_inv_rr_admitted [OF this] show ?thesis
    by (simp add: current_time_funpow_tick t0)
qed

lemma rr_tick_start_admitted:
  "rr_tick_start Q (current_time s) s = handle_rr_quantum_expiry Q (rr_admitted s)"
  by (simp add: rr_tick_start_def rr_admitted_def split: prod.splits)

lemma qlist_crowded: "qlist (FCFSQ crowded) = map (\<lambda>k. int k + 1) [0..<500]"
proof -
  have "process_indices (FCFSQ crowded) (slot (FCFSQ crowded) k) = int k + 1" if "k < 500" for k
  proof (cases "k = 499")
    case True
    then show ?thesis by (simp add: slot_def crowded_def MAX_PROCESSES_def)
  next
    case False
    with that have "0 \<le> 1 + int k" "1 + int k < 500" by simp_all
    then have "(1 + int k) mod 500 = 1 + int k" by (rule mod_pos_pos_trivial)
    then show ?thesis by (simp add: slot_def crowded_def MAX_PROCESSES_def)
  qed
  then show ?thesis
    unfolding qlist_def by (intro map_cong) (simp_all add: crowded_def)
qed

lemma sched_inv_crowded: "sched_inv 2 crowded"
proof -
  have q: "queue_ok (FCFSQ crowded)" by (rule crowded_ok)
  have "distinct (map (\<lambda>k. int k + 1) [0..<500])"
    by (simp add: distinct_map inj_on_def)
  moreover have "\<forall>idx\<in>set (map (\<lambda>k. int k + 1) [0..<500]).
      0 \<le> idx \<and> nat idx < length (processes crowded) \<and>
      state (processes crowded ! nat idx) = READY \<and> arrival_time (processes crowded ! nat idx) \<le> 2"
    by (auto simp: crowded_def crowded_process_def)
  ultimately have e: "queue_entries_ok 2 (processes crowded) (qlist (FCFSQ crowded))"
    unfolding qlist_crowded queue_entries_ok_def by (rule conjI)
  have o: "occupants_ok (processes crowded) (cpus crowded)"
    by (simp add: occupants_ok_def crowded_def crowded_process_def)
  have n: "not_arrived_ok 2 (processes crowded)"
    by (simp add: not_arrived_ok_def crowded_def crowded_process_def)
  have d: "discards crowded = 0" by (simp add: crowded_def)
  from q e o n d show ?thesis by (simp add: sched_inv_def)
qed

lemma crowded_spec:
  "rr_expiry_spec 2 [Some 0] (qlist (FCFSQ crowded)) (processes crowded) =
     ([None], qlist (FCFSQ crowded),
      (processes crowded)[0 := (processes crowded ! 0)\<lparr>quantum_used := 0, state := READY\<rparr>])"
  "rr_expiry_reports 2 [Some 0] (qlist (FCFSQ crowded)) (processes crowded) = [overflow_msg]"
  unfolding qlist_crowded
  by (simp_all add: push_back_def MAX_PROCESSES_def crowded_def crowded_process_def)

section \<open>The claims\<close>

subsection \<open>C1: SRTF preemption\<close>

text \<open>
  C1 says that under SRTF the preemption check moves a running process back to the queue
  when the head of the queue beats it, and that in the example pid 1 runs tick 0, pid 2
  runs ticks 1 to 4 and completes at tick 5, and pid 1 completes at tick 12.
  The code does none of it: \<open>handle_srtf_preemption\<close> changes nothing and
  \<open>handle_arrivals\<close> enqueues nothing under SRTF, so the CPU is idle at every tick, no
  process ever starts, and the loop stops after 101 ticks.
\<close>

theorem srtf_example_never_runs:
  "timeline srtf_example = replicate 101 [- 1] \<and>
   map start_time (processes srtf_example) = [- 1, - 1] \<and>
   map finish_time (processes srtf_example) = [- 1, - 1] \<and>
   map remaining_time (processes srtf_example) = [8, 4] \<and>
   map state (processes srtf_example) = [READY, READY] \<and>
   completed_count srtf_example = 0 \<and> current_time srtf_example = 101"
  unfolding srtf_example_def by code_simp

subsection \<open>C2: arrival admission\<close>

text \<open>
  C2 says that for every algorithm a process whose arrival time is the current time
  becomes Ready and is inserted into the ready queue. Under SRTF the process (arrival 0,
  burst 3) is marked READY at tick 0 but the queue stays empty (under FCFS the same call
  enqueues index 0), and in the whole run it is never dispatched.
\<close>

theorem srtf_arrival_not_enqueued:
  "map arrival_time (processes srtf_arrival_example) = [0] \<and>
   map state (processes srtf_arrival_example) = [READY] \<and>
   qlist (FCFSQ srtf_arrival_example) = [] \<and>
   qlist (FCFSQ (fst (handle_arrivals FCFS 0 (initial_sim (load_processes [(1, 0, 3, 0)]) 1)))) = [0] \<and>
   map start_time (processes (simulate (load_processes [(1, 0, 3, 0)]) 1 SRTF 2)) = [- 1]"
  unfolding srtf_arrival_example_def by code_simp

subsection \<open>C3: termination of the main loop\<close>

text \<open>
  C3 says that the main loop ends only when every process is Completed, or with a
  reported failure when a defensive bound is exceeded, and that nothing else ends it
  early. One process of burst 200 under FCFS on one CPU: the loop is left after 101 ticks
  by \<^verbatim>\<open>if (bruh > 100) break;\<close>, the process still RUNNING with 99 units left, and
  nothing was printed on stderr.
\<close>

theorem long_job_cut_off_silently:
  "current_time long_job_example = 101 \<and>
   completed_count long_job_example = 0 \<and>
   map state (processes long_job_example) = [RUNNING] \<and>
   map remaining_time (processes long_job_example) = [99] \<and>
   stderr_log long_job_example = []"
  unfolding long_job_example_def by code_simp

subsection \<open>C4: waiting-time accrual\<close>

text \<open>
  C4 says that every process that has arrived and is Ready gains one unit of
  \<open>waiting_time\<close> per tick. In the FCFS example of the specification pid 2 (arrival 0) is
  READY from tick 0 and first runs at tick 5: after the first tick its counter is still 0,
  and it is 0 at the end of the run. \<open>update_waiting_times\<close> tests for the state WAITING,
  which \<open>handle_arrivals\<close> has replaced by READY.
\<close>

theorem fcfs_example_waiting_time_zero:
  "timeline fcfs_example = [[1], [1], [1], [1], [1], [2], [2], [2]] \<and>
   map arrival_time (processes fcfs_example) = [0, 0] \<and>
   map start_time (processes fcfs_example) = [0, 5] \<and>
   map state (processes fcfs_example) = [COMPLETED, COMPLETED] \<and>
   map waiting_time (processes fcfs_example) = [0, 0] \<and>
   map state (processes (tick FCFS 2 (initial_sim (load_processes [(1, 0, 5, 0), (2, 0, 3, 0)]) 1)))
     = [RUNNING, READY] \<and>
   map waiting_time (processes (tick FCFS 2 (initial_sim (load_processes [(1, 0, 5, 0), (2, 0, 3, 0)]) 1)))
     = [0, 0]"
  unfolding fcfs_example_def by code_simp

subsection \<open>C5: conservation\<close>

text \<open>
  C5 says that on return from the simulation the busy time summed over the CPUs equals
  the burst time summed over the completed processes, and that every process is
  Completed with no remaining time. Two processes of burst 60 under FCFS on one CPU: the
  run returns after 101 ticks with 101 busy ticks, one completed process (burst 60) and
  the other still RUNNING with 19 units left.
\<close>

theorem two_jobs_not_conserved:
  "map busy_time (cpus two_jobs_example) = [101] \<and>
   map burst_time (filter (\<lambda>p. state p = COMPLETED) (processes two_jobs_example)) = [60] \<and>
   map state (processes two_jobs_example) = [COMPLETED, RUNNING] \<and>
   map remaining_time (processes two_jobs_example) = [0, 19]"
  unfolding two_jobs_example_def by code_simp

subsection \<open>C6: dispatch\<close>

text \<open>
  C6: idle CPUs are filled in increasing order from the front of the ready queue; a
  popped index whose process is completed or has not arrived is discarded and the same
  CPU is tried again; a first dispatch records \<open>start_time\<close> and
  \<open>response_time = start_time - arrival_time\<close>; every dispatch resets \<open>quantum_used\<close>.
  That is \<open>dispatch_spec\<close>, and \<open>assign_processes_to_idle_cpus\<close> computes it: on every
  state whose queue is well formed and holds indices of the process array, the
  occupants of the CPUs, the content of the queue and the processes after the call are
  those \<open>dispatch_spec\<close> gives.
\<close>

theorem dispatch_refines_spec:
  assumes "queue_ok (FCFSQ s)"
    and "\<forall>idx\<in>set (qlist (FCFSQ s)). 0 \<le> idx \<and> nat idx < length (processes s)"
  shows "abs_sim (assign_processes_to_idle_cpus t s) =
         dispatch_spec t (map current_process (cpus s)) (qlist (FCFSQ s)) (processes s)"
proof -
  from assms(2) have "\<forall>idx\<in>set (qlist (FCFSQ s)). 0 \<le> idx" by blast
  with assms(1) assign_loop_refines [of s 0 t] show ?thesis
    by (simp add: abs_sim_def assign_processes_to_idle_cpus_def split: prod.splits)
qed

text \<open>
  Two witnesses, FCFS on two CPUs with three processes arriving at tick 0. After the
  arrivals the queue holds \<open>[0, 1, 2]\<close>; dispatch gives CPU 0 index 0 and CPU 1 index 1.
  In \<open>discard_example\<close> index 0 is discarded and CPU 0 is tried again: it gets index 1, and
  CPU 1 gets index 2.
\<close>

theorem dispatch_refines_spec_witness:
  "queue_ok (FCFSQ dispatch_example) \<and>
   qlist (FCFSQ dispatch_example) = [0, 1, 2] \<and>
   map current_process (cpus dispatch_example) = [None, None] \<and>
   fst (abs_sim (assign_processes_to_idle_cpus 0 dispatch_example)) = [Some 0, Some 1] \<and>
   fst (snd (abs_sim (assign_processes_to_idle_cpus 0 dispatch_example))) = [2] \<and>
   map state (snd (snd (abs_sim (assign_processes_to_idle_cpus 0 dispatch_example))))
     = [RUNNING, RUNNING, READY] \<and>
   map start_time (snd (snd (abs_sim (assign_processes_to_idle_cpus 0 dispatch_example))))
     = [0, 0, - 1] \<and>
   queue_ok (FCFSQ discard_example) \<and>
   qlist (FCFSQ discard_example) = [0, 1, 2] \<and>
   map current_process (cpus discard_example) = [None, None] \<and>
   map state (processes discard_example) = [COMPLETED, READY, READY] \<and>
   fst (abs_sim (assign_processes_to_idle_cpus 0 discard_example)) = [Some 1, Some 2] \<and>
   fst (snd (abs_sim (assign_processes_to_idle_cpus 0 discard_example))) = [] \<and>
   map state (snd (snd (abs_sim (assign_processes_to_idle_cpus 0 discard_example))))
     = [COMPLETED, RUNNING, RUNNING]"
proof -
  have ok: "queue_ok (FCFSQ dispatch_example)"
    unfolding dispatch_example_def queue_ok_def by code_simp
  have ql: "qlist (FCFSQ dispatch_example) = [0, 1, 2]"
    unfolding dispatch_example_def by code_simp
  have len: "length (processes dispatch_example) = 3"
    unfolding dispatch_example_def by code_simp
  have occ: "map current_process (cpus dispatch_example) = [None, None]"
    unfolding dispatch_example_def by code_simp
  have valid: "\<forall>idx\<in>set (qlist (FCFSQ dispatch_example)).
      0 \<le> idx \<and> nat idx < length (processes dispatch_example)"
    by (simp add: ql len)
  have spec:
    "fst (dispatch_spec 0 [None, None] [0, 1, 2] (processes dispatch_example)) = [Some 0, Some 1]"
    "fst (snd (dispatch_spec 0 [None, None] [0, 1, 2] (processes dispatch_example))) = [2]"
    "map state (snd (snd (dispatch_spec 0 [None, None] [0, 1, 2] (processes dispatch_example))))
       = [RUNNING, RUNNING, READY]"
    "map start_time (snd (snd (dispatch_spec 0 [None, None] [0, 1, 2] (processes dispatch_example))))
       = [0, 0, - 1]"
    unfolding dispatch_example_def by code_simp+
  from dispatch_refines_spec [OF ok valid, of 0]
  have run: "abs_sim (assign_processes_to_idle_cpus 0 dispatch_example) =
        dispatch_spec 0 [None, None] [0, 1, 2] (processes dispatch_example)"
    by (simp only: ql occ)
  have ok': "queue_ok (FCFSQ discard_example)"
    unfolding discard_example_def dispatch_example_def queue_ok_def by code_simp
  have ql': "qlist (FCFSQ discard_example) = [0, 1, 2]"
    unfolding discard_example_def dispatch_example_def by code_simp
  have len': "length (processes discard_example) = 3"
    unfolding discard_example_def dispatch_example_def by code_simp
  have occ': "map current_process (cpus discard_example) = [None, None]"
    unfolding discard_example_def dispatch_example_def by code_simp
  have st': "map state (processes discard_example) = [COMPLETED, READY, READY]"
    unfolding discard_example_def dispatch_example_def by code_simp
  have valid': "\<forall>idx\<in>set (qlist (FCFSQ discard_example)).
      0 \<le> idx \<and> nat idx < length (processes discard_example)"
    by (simp add: ql' len')
  have spec':
    "fst (dispatch_spec 0 [None, None] [0, 1, 2] (processes discard_example)) = [Some 1, Some 2]"
    "fst (snd (dispatch_spec 0 [None, None] [0, 1, 2] (processes discard_example))) = []"
    "map state (snd (snd (dispatch_spec 0 [None, None] [0, 1, 2] (processes discard_example))))
       = [COMPLETED, RUNNING, RUNNING]"
    unfolding discard_example_def dispatch_example_def by code_simp+
  from dispatch_refines_spec [OF ok' valid', of 0]
  have run': "abs_sim (assign_processes_to_idle_cpus 0 discard_example) =
        dispatch_spec 0 [None, None] [0, 1, 2] (processes discard_example)"
    by (simp only: ql' occ')
  from run run' ok ql occ spec ok' ql' occ' st' spec' show ?thesis by (simp only: simp_thms)
qed

subsection \<open>C7: round-robin quantum expiry\<close>

text \<open>
  C7 as stated fails when the ready queue is full: the process whose quantum expired is
  not moved to the back of the queue. In \<open>crowded\<close> (quantum 2) CPU 0 runs index 0 with
  \<open>quantum_used = 2\<close> and one unit of work left; after \<open>handle_rr_quantum_expiry\<close> the CPU
  is free and index 0 is READY, but it is not in the queue.
\<close>

theorem expired_process_not_requeued:
  "map current_process (cpus crowded) = [Some 0] \<and>
   state (processes crowded ! 0) = RUNNING \<and>
   quantum_used (processes crowded ! 0) = 2 \<and>
   remaining_time (processes crowded ! 0) = 1 \<and>
   map current_process (cpus (handle_rr_quantum_expiry 2 crowded)) = [None] \<and>
   state (processes (handle_rr_quantum_expiry 2 crowded) ! 0) = READY \<and>
   0 \<notin> set (qlist (FCFSQ (handle_rr_quantum_expiry 2 crowded)))"
proof -
  have "map current_process (cpus crowded) = [Some 0]"
    "state (processes crowded ! 0) = RUNNING"
    "quantum_used (processes crowded ! 0) = 2"
    "remaining_time (processes crowded ! 0) = 1"
    by (simp_all add: crowded_def crowded_process_def)
  moreover have "map current_process (cpus (handle_rr_quantum_expiry 2 crowded)) = [None]"
    "state (processes (handle_rr_quantum_expiry 2 crowded) ! 0) = READY"
    unfolding crowded_expiry by (simp_all add: crowded_def)
  ultimately show ?thesis using crowded_expiry_queue by simp
qed

text \<open>
  C7 as amended. In every state that satisfies the invariant \<open>sched_inv\<close> (every state of
  a run does), \<open>handle_rr_quantum_expiry\<close> computes \<open>rr_expiry_spec\<close>: for each CPU, in
  order, whose process has \<open>quantum_used \<ge> Q\<close> and \<open>remaining_time > 0\<close>, the process
  becomes READY with \<open>quantum_used = 0\<close>, the CPU is freed, and the process is appended at
  the back of the ready queue unless the queue already holds \<open>MAX_PROCESSES\<close> entries;
  other CPUs and processes are left as they are. What it adds to stderr is
  \<open>rr_expiry_reports\<close>: one overflow line for each expired process that found the queue
  full. A process that runs its last unit of
  work is COMPLETED by \<open>execute_processes\<close> and taken off its CPU, whatever its quantum;
  at the next tick the expiry check does not see it, and it is in no queue and on no CPU.
  Under round robin every tick applies \<open>handle_rr_quantum_expiry\<close> once, to the state
  \<open>rr_admitted\<close> in which the arrivals of the tick are enqueued, and dispatches from the
  result; under the other algorithms the tick dispatches from the state after the
  arrivals and the expiry check is not applied. In every round-robin run the state
  \<open>rr_admitted\<close> of every tick satisfies \<open>sched_inv\<close>.
\<close>

theorem rr_expiry_refines_spec:
  assumes "sched_inv t s"
  shows "abs_sim (handle_rr_quantum_expiry Q s) =
           rr_expiry_spec Q (map current_process (cpus s)) (qlist (FCFSQ s)) (processes s)
         \<and> stderr_log (handle_rr_quantum_expiry Q s) =
             stderr_log s @
             rr_expiry_reports Q (map current_process (cpus s)) (qlist (FCFSQ s)) (processes s)
         \<and> (\<forall>c i. c < length (cpus s) \<and> current_process (cpus s ! c) = Some i \<and>
                   remaining_time (processes s ! i) \<le> 1 \<longrightarrow>
               state (processes (execute_processes t s) ! i) = COMPLETED \<and>
               finish_time (processes (execute_processes t s) ! i) = t + 1 \<and>
               current_process (cpus (execute_processes t s) ! c) = None \<and>
               state (processes (rr_tick_start Q (t + 1) (execute_processes t s)) ! i) = COMPLETED \<and>
               int i \<notin> set (qlist (FCFSQ (rr_tick_start Q (t + 1) (execute_processes t s)))))
         \<and> (\<forall>s0. tick RR Q s0 =
                 (execute_processes (current_time s0)
                    (update_waiting_times (current_time s0)
                       (record_timeline
                          (assign_processes_to_idle_cpus (current_time s0)
                             (handle_rr_quantum_expiry Q (rr_admitted s0))))))
                 \<lparr>current_time := current_time s0 + 1\<rparr>)
         \<and> (\<forall>s0. rr_tick_start Q (current_time s0) s0 = handle_rr_quantum_expiry Q (rr_admitted s0))
         \<and> (\<forall>algorithm s0. algorithm \<noteq> RR \<longrightarrow>
               tick algorithm Q s0 =
                 (execute_processes (current_time s0)
                    (update_waiting_times (current_time s0)
                       (record_timeline
                          (assign_processes_to_idle_cpus (current_time s0)
                             (fst (handle_arrivals algorithm (current_time s0) s0))))))
                 \<lparr>current_time := current_time s0 + 1\<rparr>)
         \<and> (\<forall>recs cpu_count n.
               sched_inv (int n)
                 (rr_admitted ((tick RR Q ^^ n) (initial_sim (load_processes recs) cpu_count))))"
proof (intro conjI allI impI)
  from assms show "abs_sim (handle_rr_quantum_expiry Q s) =
           rr_expiry_spec Q (map current_process (cpus s)) (qlist (FCFSQ s)) (processes s)"
    by (intro rr_expiry_abs) (simp_all add: sched_inv_def)
next
  from assms show "stderr_log (handle_rr_quantum_expiry Q s) =
             stderr_log s @
             rr_expiry_reports Q (map current_process (cpus s)) (qlist (FCFSQ s)) (processes s)"
    by (intro rr_expiry_reports_log) (simp_all add: sched_inv_def)
next
  fix c i
  assume "c < length (cpus s) \<and> current_process (cpus s ! c) = Some i \<and>
          remaining_time (processes s ! i) \<le> 1"
  then have c: "c < length (cpus s)" and occ: "current_process (cpus s ! c) = Some i"
    and last: "remaining_time (processes s ! i) \<le> 1"
    by simp_all
  note r = completed_at_expiry_is_retired [OF assms c occ last]
  from r(1) show "state (processes (execute_processes t s) ! i) = COMPLETED" .
  from r(2) show "finish_time (processes (execute_processes t s) ! i) = t + 1" .
  from r(3) show "current_process (cpus (execute_processes t s) ! c) = None" .
  from r(4) show "state (processes (rr_tick_start Q (t + 1) (execute_processes t s)) ! i) = COMPLETED" .
  from r(5) show "int i \<notin> set (qlist (FCFSQ (rr_tick_start Q (t + 1) (execute_processes t s))))" .
next
  fix s0
  show "tick RR Q s0 =
     (execute_processes (current_time s0)
        (update_waiting_times (current_time s0)
           (record_timeline
              (assign_processes_to_idle_cpus (current_time s0)
                 (handle_rr_quantum_expiry Q (rr_admitted s0))))))
     \<lparr>current_time := current_time s0 + 1\<rparr>"
    by (rule tick_RR)
next
  fix s0
  show "rr_tick_start Q (current_time s0) s0 = handle_rr_quantum_expiry Q (rr_admitted s0)"
    by (rule rr_tick_start_admitted)
next
  fix algorithm s0
  assume "algorithm \<noteq> RR"
  then show "tick algorithm Q s0 =
     (execute_processes (current_time s0)
        (update_waiting_times (current_time s0)
           (record_timeline
              (assign_processes_to_idle_cpus (current_time s0)
                 (fst (handle_arrivals algorithm (current_time s0) s0))))))
     \<lparr>current_time := current_time s0 + 1\<rparr>"
    by (rule tick_not_RR)
next
  fix recs cpu_count n
  show "sched_inv (int n)
         (rr_admitted ((tick RR Q ^^ n) (initial_sim (load_processes recs) cpu_count)))"
    by (rule sched_inv_funpow_rr_admitted)
qed

text \<open>
  Witnesses, round robin with quantum 2 on one CPU. In \<open>expiry_example\<close> (two processes of
  burst 4, after two ticks) the quantum of index 0 has expired with work left: it goes
  behind index 1 and nothing is printed; the whole tick then runs index 1, and under
  FCFS the same tick leaves index 0 on the CPU. In \<open>last_unit_example\<close> (bursts 2 and 4,
  after one tick) index 0 is about to run its last unit, which is also the last of its
  quantum: it completes and is not requeued. In \<open>crowded\<close> the queue holds 500 entries:
  index 0 leaves the CPU and becomes READY, the queue is as it was, and a second
  overflow line is printed.
\<close>

theorem rr_expiry_refines_spec_witness:
  "sched_inv 1 expiry_example \<and>
   map current_process (cpus expiry_example) = [Some 0] \<and>
   qlist (FCFSQ expiry_example) = [1] \<and>
   map quantum_used (processes expiry_example) = [2, 0] \<and>
   map remaining_time (processes expiry_example) = [2, 4] \<and>
   fst (abs_sim (handle_rr_quantum_expiry 2 expiry_example)) = [None] \<and>
   fst (snd (abs_sim (handle_rr_quantum_expiry 2 expiry_example))) = [1, 0] \<and>
   map state (snd (snd (abs_sim (handle_rr_quantum_expiry 2 expiry_example)))) = [READY, READY] \<and>
   map quantum_used (snd (snd (abs_sim (handle_rr_quantum_expiry 2 expiry_example)))) = [0, 0] \<and>
   stderr_log (handle_rr_quantum_expiry 2 expiry_example) = [] \<and>
   sched_inv 1 last_unit_example \<and>
   current_process (cpus last_unit_example ! 0) = Some 0 \<and>
   remaining_time (processes last_unit_example ! 0) = 1 \<and>
   quantum_used (processes last_unit_example ! 0) = 1 \<and>
   state (processes (execute_processes 1 last_unit_example) ! 0) = COMPLETED \<and>
   current_process (cpus (execute_processes 1 last_unit_example) ! 0) = None \<and>
   int 0 \<notin> set (qlist (FCFSQ (rr_tick_start 2 (1 + 1) (execute_processes 1 last_unit_example)))) \<and>
   sched_inv 2 crowded \<and>
   map current_process (cpus crowded) = [Some 0] \<and>
   length (qlist (FCFSQ crowded)) = 500 \<and>
   stderr_log crowded = [overflow_msg] \<and>
   fst (abs_sim (handle_rr_quantum_expiry 2 crowded)) = [None] \<and>
   fst (snd (abs_sim (handle_rr_quantum_expiry 2 crowded))) = qlist (FCFSQ crowded) \<and>
   state (snd (snd (abs_sim (handle_rr_quantum_expiry 2 crowded))) ! 0) = READY \<and>
   quantum_used (snd (snd (abs_sim (handle_rr_quantum_expiry 2 crowded))) ! 0) = 0 \<and>
   stderr_log (handle_rr_quantum_expiry 2 crowded) = [overflow_msg, overflow_msg] \<and>
   abs_sim (rr_admitted expiry_example) = abs_sim expiry_example \<and>
   map current_process (cpus (tick RR 2 expiry_example)) = [Some 1] \<and>
   qlist (FCFSQ (tick RR 2 expiry_example)) = [0] \<and>
   map quantum_used (processes (tick RR 2 expiry_example)) = [0, 1] \<and>
   map current_process (cpus (tick FCFS 2 expiry_example)) = [Some 0] \<and>
   map quantum_used (processes (tick FCFS 2 expiry_example)) = [3, 0] \<and>
   sched_inv 2 (rr_admitted expiry_example)"
proof -
  have init: "sched_inv (current_time (initial_sim (load_processes recs) 1) - 1)
      (initial_sim (load_processes recs) 1)" for recs
    using sched_inv_initial [of recs 1] by (simp add: initial_sim_def)
  have i1: "sched_inv 1 expiry_example"
  proof -
    let ?s0 = "initial_sim (load_processes [(1, 0, 4, 0), (2, 0, 4, 0)]) 1"
    have "sched_inv (current_time ?s0 - 1) ?s0" by (rule init)
    then have "sched_inv (current_time ?s0) (tick RR 2 ?s0)" by (rule sched_inv_tick)
    then have "sched_inv (current_time (tick RR 2 ?s0) - 1) (tick RR 2 ?s0)" by simp
    then have "sched_inv (current_time (tick RR 2 ?s0)) (tick RR 2 (tick RR 2 ?s0))"
      by (rule sched_inv_tick)
    then show ?thesis by (simp add: expiry_example_def initial_sim_def)
  qed
  have i2: "sched_inv 1 last_unit_example"
  proof -
    let ?s0 = "initial_sim (load_processes [(1, 0, 2, 0), (2, 0, 4, 0)]) 1"
    have "sched_inv (current_time ?s0 - 1) ?s0" by (rule init)
    then have "sched_inv (current_time ?s0) (tick RR 2 ?s0)" by (rule sched_inv_tick)
    then have "sched_inv 0 last_unit_example"
      by (simp add: last_unit_example_def initial_sim_def)
    then show ?thesis by (rule sched_inv_mono) simp
  qed
  have e: "map current_process (cpus expiry_example) = [Some 0]"
    "qlist (FCFSQ expiry_example) = [1]"
    "map quantum_used (processes expiry_example) = [2, 0]"
    "map remaining_time (processes expiry_example) = [2, 4]"
    unfolding expiry_example_def by code_simp+
  have elog: "stderr_log expiry_example = []"
    unfolding expiry_example_def by code_simp
  have sp: "fst (rr_expiry_spec 2 [Some 0] [1] (processes expiry_example)) = [None]"
    "fst (snd (rr_expiry_spec 2 [Some 0] [1] (processes expiry_example))) = [1, 0]"
    "map state (snd (snd (rr_expiry_spec 2 [Some 0] [1] (processes expiry_example)))) = [READY, READY]"
    "map quantum_used (snd (snd (rr_expiry_spec 2 [Some 0] [1] (processes expiry_example)))) = [0, 0]"
    "rr_expiry_reports 2 [Some 0] [1] (processes expiry_example) = []"
    unfolding expiry_example_def by code_simp+
  have l: "current_process (cpus last_unit_example ! 0) = Some 0"
    "remaining_time (processes last_unit_example ! 0) = 1"
    "quantum_used (processes last_unit_example ! 0) = 1"
    "0 < length (cpus last_unit_example)"
    unfolding last_unit_example_def by code_simp+
  note th1 = rr_expiry_refines_spec [OF i1, where Q = 2]
  from th1 have "abs_sim (handle_rr_quantum_expiry 2 expiry_example) =
      rr_expiry_spec 2 [Some 0] [1] (processes expiry_example)"
    unfolding e(1,2) by (rule conjunct1)
  with sp have a: "fst (abs_sim (handle_rr_quantum_expiry 2 expiry_example)) = [None]"
    "fst (snd (abs_sim (handle_rr_quantum_expiry 2 expiry_example))) = [1, 0]"
    "map state (snd (snd (abs_sim (handle_rr_quantum_expiry 2 expiry_example)))) = [READY, READY]"
    "map quantum_used (snd (snd (abs_sim (handle_rr_quantum_expiry 2 expiry_example)))) = [0, 0]"
    by (simp_all only:)
  from th1 have "stderr_log (handle_rr_quantum_expiry 2 expiry_example) =
      stderr_log expiry_example @ rr_expiry_reports 2 [Some 0] [1] (processes expiry_example)"
    unfolding e(1,2) by (rule conjunct2 [THEN conjunct1])
  then have alog: "stderr_log (handle_rr_quantum_expiry 2 expiry_example) = []"
    by (simp only: elog sp(5) append_Nil)
  have pre: "0 < length (cpus last_unit_example) \<and>
      current_process (cpus last_unit_example ! 0) = Some 0 \<and>
      remaining_time (processes last_unit_example ! 0) \<le> 1"
    using l by simp
  note th2 = rr_expiry_refines_spec [OF i2, where Q = 2, THEN conjunct2, THEN conjunct2,
      THEN conjunct1, THEN spec, THEN spec, THEN mp, OF pre]
  from th2 have b: "state (processes (execute_processes 1 last_unit_example) ! 0) = COMPLETED"
    "current_process (cpus (execute_processes 1 last_unit_example) ! 0) = None"
    "int 0 \<notin> set (qlist (FCFSQ (rr_tick_start 2 (1 + 1) (execute_processes 1 last_unit_example))))"
    by blast+
  have i3: "sched_inv 2 crowded" by (rule sched_inv_crowded)
  have cr: "map current_process (cpus crowded) = [Some 0]"
    "stderr_log crowded = [overflow_msg]"
    by (simp_all add: crowded_def)
  have crl: "length (qlist (FCFSQ crowded)) = 500"
    by (simp add: qlist_crowded)
  note th3 = rr_expiry_refines_spec [OF i3, where Q = 2]
  from th3 have "abs_sim (handle_rr_quantum_expiry 2 crowded) =
      rr_expiry_spec 2 [Some 0] (qlist (FCFSQ crowded)) (processes crowded)"
    unfolding cr(1) by (rule conjunct1)
  then have c1: "abs_sim (handle_rr_quantum_expiry 2 crowded) =
     ([None], qlist (FCFSQ crowded),
      (processes crowded)[0 := (processes crowded ! 0)\<lparr>quantum_used := 0, state := READY\<rparr>])"
    by (simp only: crowded_spec(1))
  have c: "fst (abs_sim (handle_rr_quantum_expiry 2 crowded)) = [None]"
    "fst (snd (abs_sim (handle_rr_quantum_expiry 2 crowded))) = qlist (FCFSQ crowded)"
    "state (snd (snd (abs_sim (handle_rr_quantum_expiry 2 crowded))) ! 0) = READY"
    "quantum_used (snd (snd (abs_sim (handle_rr_quantum_expiry 2 crowded))) ! 0) = 0"
    unfolding c1 by (simp_all add: crowded_def)
  from th3 have "stderr_log (handle_rr_quantum_expiry 2 crowded) =
      stderr_log crowded @ rr_expiry_reports 2 [Some 0] (qlist (FCFSQ crowded)) (processes crowded)"
    unfolding cr(1) by (rule conjunct2 [THEN conjunct1])
  then have clog: "stderr_log (handle_rr_quantum_expiry 2 crowded) = [overflow_msg, overflow_msg]"
    by (simp only: cr(2) crowded_spec(2) append.simps)
  have ct: "current_time expiry_example = 2"
    unfolding expiry_example_def by code_simp
  have adm: "abs_sim (rr_admitted expiry_example) = abs_sim expiry_example"
    unfolding expiry_example_def by code_simp
  from th1 [THEN conjunct2, THEN conjunct2, THEN conjunct2, THEN conjunct1, rule_format]
  have tk: "tick RR 2 expiry_example =
      (execute_processes (current_time expiry_example)
         (update_waiting_times (current_time expiry_example)
            (record_timeline
               (assign_processes_to_idle_cpus (current_time expiry_example)
                  (handle_rr_quantum_expiry 2 (rr_admitted expiry_example))))))
      \<lparr>current_time := current_time expiry_example + 1\<rparr>"
    .
  have tv: "map current_process (cpus (tick RR 2 expiry_example)) = [Some 1]"
    "qlist (FCFSQ (tick RR 2 expiry_example)) = [0]"
    "map quantum_used (processes (tick RR 2 expiry_example)) = [0, 1]"
    unfolding tk ct unfolding expiry_example_def by code_simp+
  have ne: "FCFS \<noteq> RR" by simp
  from th1 [THEN conjunct2, THEN conjunct2, THEN conjunct2, THEN conjunct2, THEN conjunct2,
      THEN conjunct1, rule_format, OF ne]
  have tf: "tick FCFS 2 expiry_example =
      (execute_processes (current_time expiry_example)
         (update_waiting_times (current_time expiry_example)
            (record_timeline
               (assign_processes_to_idle_cpus (current_time expiry_example)
                  (fst (handle_arrivals FCFS (current_time expiry_example) expiry_example))))))
      \<lparr>current_time := current_time expiry_example + 1\<rparr>"
    .
  have fv: "map current_process (cpus (tick FCFS 2 expiry_example)) = [Some 0]"
    "map quantum_used (processes (tick FCFS 2 expiry_example)) = [3, 0]"
    unfolding tf ct unfolding expiry_example_def by code_simp+
  from th1 [THEN conjunct2, THEN conjunct2, THEN conjunct2, THEN conjunct2, THEN conjunct2,
      THEN conjunct2, rule_format]
  have "sched_inv (int 2)
      (rr_admitted ((tick RR 2 ^^ 2) (initial_sim (load_processes [(1, 0, 4, 0), (2, 0, 4, 0)]) 1)))"
    .
  then have run: "sched_inv 2 (rr_admitted expiry_example)"
    by (simp add: expiry_example_def numeral_2_eq_2)
  from i1 i2 e a alog l(1-3) b i3 cr crl c clog adm tv fv run show ?thesis
    by (simp only: simp_thms)
qed

subsection \<open>C8: ordered insertion\<close>

text \<open>
  C8 as stated fails in its last part: of two entries with equal remaining time, the one
  with the lower priority value is not placed first. Under SJF the arrivals of
  \<open>tie_example\<close> are enqueued as \<open>[1, 0]\<close>: index 1 (priority 2) before index 0
  (priority 1), and pid 2 runs first.
\<close>

theorem lower_priority_value_not_first:
  "map remaining_time tie_example = [5, 5] \<and>
   map priority tie_example = [1, 2] \<and>
   qlist (FCFSQ (fst (handle_arrivals SJF 0 (initial_sim tie_example 1)))) = [1, 0] \<and>
   timeline (simulate tie_example 1 SJF 2) = [[2], [2], [2], [2], [2], [1], [1], [1], [1], [1]]"
  unfolding tie_example_def by code_simp

text \<open>
  C8 as amended (the code's convention: the higher priority value goes first). On a queue
  that is not full, \<open>enqueue_priority\<close> places the new index \<open>i\<close> immediately before the
  first entry that \<open>i\<close> ranks before (less remaining time, or the same remaining time and a
  larger priority value), and at the back when there is none. When the queue was sorted,
  every entry behind \<open>i\<close> is one that \<open>i\<close> ranks before, so entries of equal remaining
  time and priority stay in front of \<open>i\<close> (stable insertion), and the queue stays sorted by
  that order, hence by remaining time.
\<close>

theorem enqueue_priority_ordered_insert:
  assumes "queue_ok q" and "qsize q < MAX_PROCESSES"
  shows "qlist (fst (enqueue_priority q i ps)) =
           takeWhile (\<lambda>x. \<not> ranks_before ps i x) (qlist q) @ i #
           dropWhile (\<lambda>x. \<not> ranks_before ps i x) (qlist q)
         \<and> (\<forall>x\<in>set (takeWhile (\<lambda>x. \<not> ranks_before ps i x) (qlist q)). \<not> ranks_before ps i x)
         \<and> (queue_sorted ps (qlist q) \<longrightarrow>
              (\<forall>y\<in>set (dropWhile (\<lambda>x. \<not> ranks_before ps i x) (qlist q)). ranks_before ps i y)
              \<and> queue_sorted ps (qlist (fst (enqueue_priority q i ps)))
              \<and> sorted (map (\<lambda>x. remaining_time (ps ! nat x)) (qlist (fst (enqueue_priority q i ps)))))"
proof -
  let ?P = "\<lambda>x. \<not> ranks_before ps i x"
  have eq: "qlist (fst (enqueue_priority q i ps)) =
        takeWhile ?P (qlist q) @ i # dropWhile ?P (qlist q)"
    using assms by (rule qlist_enqueue_priority_ranks)
  have front: "\<forall>x\<in>set (takeWhile ?P (qlist q)). \<not> ranks_before ps i x"
  proof
    fix x assume "x \<in> set (takeWhile ?P (qlist q))"
    then have "x \<in> set (qlist q) \<and> ?P x" by (rule set_takeWhileD)
    then show "\<not> ranks_before ps i x" by simp
  qed
  have behind: "\<forall>y\<in>set (dropWhile ?P (qlist q)). ranks_before ps i y"
    and srt: "queue_sorted ps (qlist (fst (enqueue_priority q i ps)))"
    and srt_time: "sorted (map (\<lambda>x. remaining_time (ps ! nat x)) (qlist (fst (enqueue_priority q i ps))))"
    if s: "queue_sorted ps (qlist q)"
  proof -
    show "\<forall>y\<in>set (dropWhile ?P (qlist q)). ranks_before ps i y"
      using s by (rule dropWhile_all_outranked)
    show srt': "queue_sorted ps (qlist (fst (enqueue_priority q i ps)))"
      unfolding eq using s by (rule queue_sorted_insert)
    have "sorted_wrt (\<lambda>x y. remaining_time (ps ! nat x) \<le> remaining_time (ps ! nat y))
            (qlist (fst (enqueue_priority q i ps)))"
      using srt' unfolding queue_sorted_def
      by (rule sorted_wrt_mono_rel [rotated]) (auto simp: ranks_before_def outranks_def)
    then show "sorted (map (\<lambda>x. remaining_time (ps ! nat x)) (qlist (fst (enqueue_priority q i ps))))"
      by (simp add: sorted_map)
  qed
  from eq front behind srt srt_time show ?thesis by blast
qed

text \<open>
  A witness: three processes of remaining times 5, 3, 5 and priorities 1, 0, 2. The queue
  holds \<open>[1, 0]\<close>; index 2 goes between them, before index 0, which it ranks before.
\<close>

theorem enqueue_priority_ordered_insert_witness:
  "queue_ok insert_example_queue \<and> qsize insert_example_queue < MAX_PROCESSES \<and>
   qlist insert_example_queue = [1, 0] \<and> queue_sorted insert_example [1, 0] \<and>
   qlist (fst (enqueue_priority insert_example_queue 2 insert_example)) = [1, 2, 0] \<and>
   queue_sorted insert_example [1, 2, 0]"
proof -
  have ok: "queue_ok insert_example_queue"
    unfolding insert_example_queue_def insert_example_def queue_ok_def by code_simp
  have room: "qsize insert_example_queue < MAX_PROCESSES"
    unfolding insert_example_queue_def insert_example_def by code_simp
  have ql: "qlist insert_example_queue = [1, 0]"
    unfolding insert_example_queue_def insert_example_def by code_simp
  have srt: "queue_sorted insert_example [1, 0]"
    unfolding insert_example_def queue_sorted_def by code_simp
  have tw: "takeWhile (\<lambda>x. \<not> ranks_before insert_example 2 x) [1, 0] = [1]"
    "dropWhile (\<lambda>x. \<not> ranks_before insert_example 2 x) [1, 0] = [0]"
    unfolding insert_example_def by code_simp code_simp
  note th = enqueue_priority_ordered_insert [OF ok room, of 2 insert_example]
  from th have "qlist (fst (enqueue_priority insert_example_queue 2 insert_example)) =
      takeWhile (\<lambda>x. \<not> ranks_before insert_example 2 x) (qlist insert_example_queue) @ 2 #
      dropWhile (\<lambda>x. \<not> ranks_before insert_example 2 x) (qlist insert_example_queue)"
    by (rule conjunct1)
  then have res: "qlist (fst (enqueue_priority insert_example_queue 2 insert_example)) = [1, 2, 0]"
    by (simp only: ql tw append.simps)
  from srt have "queue_sorted insert_example (qlist insert_example_queue)"
    by (simp only: ql)
  with th have "queue_sorted insert_example
      (qlist (fst (enqueue_priority insert_example_queue 2 insert_example)))"
    by (elim conjE impE) assumption+
  then have "queue_sorted insert_example [1, 2, 0]"
    by (simp only: res)
  with ok room ql srt res show ?thesis by (simp only: simp_thms)
qed

subsection \<open>C9: a full ready queue\<close>

text \<open>
  C9 as stated fails: an enqueue attempt on a full queue is not a hard failure, and the
  process is lost. In \<open>crowded\<close> the queue is full and the quantum of index 0 has expired
  with one unit of work left. \<open>handle_rr_quantum_expiry\<close> takes index 0 off the CPU and
  its enqueue attempt only prints the overflow line; the dispatch that follows runs as
  usual and gives the CPU to index 1. Index 0 is then READY and unfinished, on no CPU and
  not in the queue: nothing will ever run it again.
\<close>

theorem overflow_is_not_a_hard_failure:
  "qsize (FCFSQ crowded) = MAX_PROCESSES \<and>
   map current_process (cpus crowded) = [Some 0] \<and>
   stderr_log (assign_processes_to_idle_cpus 2 (handle_rr_quantum_expiry 2 crowded))
     = [overflow_msg, overflow_msg] \<and>
   map current_process (cpus (assign_processes_to_idle_cpus 2 (handle_rr_quantum_expiry 2 crowded)))
     = [Some 1] \<and>
   state (processes (assign_processes_to_idle_cpus 2 (handle_rr_quantum_expiry 2 crowded)) ! 0)
     = READY \<and>
   remaining_time (processes (assign_processes_to_idle_cpus 2 (handle_rr_quantum_expiry 2 crowded)) ! 0)
     = 1 \<and>
   0 \<notin> set (qlist (FCFSQ (assign_processes_to_idle_cpus 2 (handle_rr_quantum_expiry 2 crowded))))"
proof -
  have "qsize (FCFSQ crowded) = MAX_PROCESSES" "map current_process (cpus crowded) = [Some 0]"
    by (simp_all add: crowded_def MAX_PROCESSES_def)
  moreover have
    "stderr_log (assign_processes_to_idle_cpus 2 (handle_rr_quantum_expiry 2 crowded))
       = [overflow_msg, overflow_msg]"
    "map current_process (cpus (assign_processes_to_idle_cpus 2 (handle_rr_quantum_expiry 2 crowded)))
       = [Some 1]"
    "state (processes (assign_processes_to_idle_cpus 2 (handle_rr_quantum_expiry 2 crowded)) ! 0)
       = READY"
    "remaining_time (processes (assign_processes_to_idle_cpus 2 (handle_rr_quantum_expiry 2 crowded)) ! 0)
       = 1"
    unfolding crowded_dispatch by (simp_all add: crowded_process_def)
  ultimately show ?thesis using crowded_dispatch_queue by simp
qed

text \<open>
  C9 as amended. When the queue is full, \<open>enqueue\<close> and \<open>enqueue_priority\<close> print
  \<open>overflow_msg\<close> on stderr and return with the queue as it was (contents, front, rear
  and size); the index is not enqueued, and for the simulation the only effect of the
  attempt is the line on stderr: it goes on from the same state.
\<close>

theorem enqueue_on_full_queue:
  assumes "MAX_PROCESSES \<le> qsize (FCFSQ s)"
  shows "enqueue (FCFSQ s) i = (FCFSQ s, [overflow_msg]) \<and>
         enqueue_priority (FCFSQ s) i (processes s) = (FCFSQ s, [overflow_msg]) \<and>
         enqueue_FCFSQ i s = s\<lparr>stderr_log := stderr_log s @ [overflow_msg]\<rparr> \<and>
         enqueue_priority_FCFSQ i s = s\<lparr>stderr_log := stderr_log s @ [overflow_msg]\<rparr>"
  using assms
  by (simp add: enqueue_full enqueue_priority_full enqueue_FCFSQ_def enqueue_priority_FCFSQ_def)

theorem enqueue_on_full_queue_witness:
  "MAX_PROCESSES \<le> qsize (FCFSQ crowded) \<and>
   enqueue (FCFSQ crowded) 501 = (FCFSQ crowded, [overflow_msg]) \<and>
   stderr_log (enqueue_FCFSQ 501 crowded) = [overflow_msg, overflow_msg] \<and>
   qlist (FCFSQ (enqueue_FCFSQ 501 crowded)) = qlist (FCFSQ crowded)"
proof -
  have full: "MAX_PROCESSES \<le> qsize (FCFSQ crowded)"
    by (simp add: crowded_def MAX_PROCESSES_def)
  from enqueue_on_full_queue [OF full, of 501]
  have "enqueue (FCFSQ crowded) 501 = (FCFSQ crowded, [overflow_msg])"
    and "enqueue_FCFSQ 501 crowded = crowded\<lparr>stderr_log := stderr_log crowded @ [overflow_msg]\<rparr>"
    by simp_all
  with full show ?thesis by (simp add: crowded_def)
qed

subsection \<open>C10: the discard branch of dispatch\<close>

text \<open>
  C10: every index popped from the ready queue during dispatch is the index of a process
  that has arrived and is not completed, so the discard-and-retry branch of
  \<open>assign_processes_to_idle_cpus\<close> never runs; only arriving processes and processes whose
  quantum expired are enqueued, never a completed one. \<open>discards\<close> counts the runs of that
  branch: it is 0 when \<open>simulate\<close> returns, for every list of input records, number of CPUs,
  algorithm and quantum. The reason is the invariant \<open>sched_inv\<close>, which holds after any
  number \<open>n\<close> of ticks: each queue entry is a valid index of a READY process that has
  arrived, no index is queued twice, and the CPUs hold other, RUNNING, processes. In
  particular, when dispatch is called at tick \<open>n\<close>, every entry of the queue is the index
  of a READY process whose arrival time is at most \<open>n\<close>.
\<close>

theorem discard_branch_unreachable:
  "discards (simulate (load_processes recs) cpu_count algorithm time_quantum) = 0 \<and>
   (\<forall>n. sched_inv (int n - 1)
          ((tick algorithm time_quantum ^^ n) (initial_sim (load_processes recs) cpu_count))) \<and>
   (\<forall>n. queue_entries_ok (int n)
          (processes (before_dispatch algorithm time_quantum
             ((tick algorithm time_quantum ^^ n) (initial_sim (load_processes recs) cpu_count))))
          (qlist (FCFSQ (before_dispatch algorithm time_quantum
             ((tick algorithm time_quantum ^^ n) (initial_sim (load_processes recs) cpu_count))))))"
proof -
  let ?s0 = "initial_sim (load_processes recs) cpu_count"
  have init: "sched_inv (current_time ?s0 - 1) ?s0"
    using sched_inv_initial [of recs cpu_count] by (simp add: initial_sim_def)
  have ct: "current_time ?s0 = 0" by (simp add: initial_sim_def)
  from init
  have "sched_inv (current_time (simulate (load_processes recs) cpu_count algorithm time_quantum) - 1)
          (simulate (load_processes recs) cpu_count algorithm time_quantum)"
    unfolding simulate_def by (rule sched_inv_simulate_loop)
  then have a: "discards (simulate (load_processes recs) cpu_count algorithm time_quantum) = 0"
    by (simp add: sched_inv_def)
  have b: "sched_inv (int n - 1) ((tick algorithm time_quantum ^^ n) ?s0)" for n
    using sched_inv_funpow_tick [OF init, of n algorithm time_quantum] by (simp add: ct)
  have "sched_inv (int n) (before_dispatch algorithm time_quantum
          ((tick algorithm time_quantum ^^ n) ?s0))" for n
    using sched_inv_funpow_before_dispatch [OF init, of n algorithm time_quantum]
    by (simp add: ct)
  then have c: "queue_entries_ok (int n)
          (processes (before_dispatch algorithm time_quantum ((tick algorithm time_quantum ^^ n) ?s0)))
          (qlist (FCFSQ (before_dispatch algorithm time_quantum
             ((tick algorithm time_quantum ^^ n) ?s0))))" for n
    by (simp add: sched_inv_def)
  from a b c show ?thesis by blast
qed

text \<open>
  A witness: the round-robin example of the specification, at the end, after two ticks,
  and when dispatch is called at tick 2 (the quantum of index 0 has just expired).
\<close>

theorem discard_branch_unreachable_witness:
  "discards (simulate (load_processes [(1, 0, 4, 0), (2, 0, 4, 0)]) 1 RR 2) = 0 \<and>
   sched_inv 1 ((tick RR 2 ^^ 2) (initial_sim (load_processes [(1, 0, 4, 0), (2, 0, 4, 0)]) 1)) \<and>
   qlist (FCFSQ ((tick RR 2 ^^ 2) (initial_sim (load_processes [(1, 0, 4, 0), (2, 0, 4, 0)]) 1))) = [1] \<and>
   queue_entries_ok 2
     (processes (before_dispatch RR 2
        ((tick RR 2 ^^ 2) (initial_sim (load_processes [(1, 0, 4, 0), (2, 0, 4, 0)]) 1))))
     [1, 0]"
proof -
  let ?s0 = "initial_sim (load_processes [(1, 0, 4, 0), (2, 0, 4, 0)]) 1"
  note th = discard_branch_unreachable [of "[(1, 0, 4, 0), (2, 0, 4, 0)]" 1 RR 2]
  from th have a: "discards (simulate (load_processes [(1, 0, 4, 0), (2, 0, 4, 0)]) 1 RR 2) = 0"
    by (rule conjunct1)
  from th have "\<forall>n. sched_inv (int n - 1) ((tick RR 2 ^^ n) ?s0)"
    by (rule conjunct2 [THEN conjunct1])
  then have "sched_inv (int 2 - 1) ((tick RR 2 ^^ 2) ?s0)"
    by (rule spec)
  then have b: "sched_inv 1 ((tick RR 2 ^^ 2) ?s0)"
    by simp
  have two: "(tick RR 2 ^^ 2) ?s0 = tick RR 2 (tick RR 2 ?s0)"
    by (simp add: numeral_2_eq_2)
  have "qlist (FCFSQ (tick RR 2 (tick RR 2 ?s0))) = [1]"
    by code_simp
  then have c: "qlist (FCFSQ ((tick RR 2 ^^ 2) ?s0)) = [1]"
    by (simp only: two)
  have "qlist (FCFSQ (before_dispatch RR 2 (tick RR 2 (tick RR 2 ?s0)))) = [1, 0]"
    by code_simp
  then have q: "qlist (FCFSQ (before_dispatch RR 2 ((tick RR 2 ^^ 2) ?s0))) = [1, 0]"
    by (simp only: two)
  from th have "\<forall>n. queue_entries_ok (int n)
          (processes (before_dispatch RR 2 ((tick RR 2 ^^ n) ?s0)))
          (qlist (FCFSQ (before_dispatch RR 2 ((tick RR 2 ^^ n) ?s0))))"
    by (rule conjunct2 [THEN conjunct2])
  then have "queue_entries_ok (int 2)
          (processes (before_dispatch RR 2 ((tick RR 2 ^^ 2) ?s0)))
          (qlist (FCFSQ (before_dispatch RR 2 ((tick RR 2 ^^ 2) ?s0))))"
    by (rule spec)
  then have d: "queue_entries_ok 2 (processes (before_dispatch RR 2 ((tick RR 2 ^^ 2) ?s0))) [1, 0]"
    by (simp only: q) simp
  from a b c d show ?thesis by (simp only: simp_thms)
qed

end
